theory Spec2Isabelle
  imports Complex_Main "HOL-Library.AList"
begin

section \<open>The live log overlay: \<open>LogWindow\<close>\<close>

text \<open>
  An overlay record is the tuple \<open>(timestamp, category, message)\<close> that \<open>add_log\<close>
  appends. The buffer \<open>log_lines\<close> is a \<open>collections.deque(maxlen=max_lines)\<close>; it is kept
  as the list of its items, oldest first, next to the bound \<open>max_lines\<close> it was built with.
  Python's integers are \<open>int\<close>. The bound is taken as an integer, as the default \<open>100\<close> is.
\<close>

type_synonym log_line = "string \<times> string \<times> string"

type_synonym colour = "int \<times> int \<times> int"

datatype py_error = OSError | KeyError | ZeroDivisionError | ValueError

record LogWindow =
  window_name :: string
  window_size :: "int \<times> int"
  max_lines :: int
  log_lines :: "log_line list"

text \<open>
  The attributes \<open>line_height\<close> and \<open>category_colors\<close> are assigned once in \<open>__init__\<close> and
  never again, so they are constants here.
\<close>

definition line_height :: int where
  "line_height = 20"

definition category_colors :: "(string \<times> colour) list" where
  "category_colors =
     [(''system'', (255, 255, 255)),
      (''sensors'', (0, 255, 0)),
      (''sync'', (0, 255, 255)),
      (''control'', (0, 165, 255)),
      (''performance'', (128, 0, 255))]"

text \<open>
  \<open>deque.append\<close> on a bounded deque: the item is added on the right and, when the deque
  is then longer than \<open>maxlen\<close>, one item is dropped on the left. A deque of bound \<open>0\<close>
  therefore stays empty.
\<close>

definition deque_append :: "int \<Rightarrow> 'a list \<Rightarrow> 'a \<Rightarrow> 'a list" where
  "deque_append maxlen xs x =
     (let ys = xs @ [x] in if maxlen < int (length ys) then tl ys else ys)"

text \<open>
  \<open>add_log\<close>: the timestamp is what \<open>time.strftime("%H:%M:%S", time.localtime())\<close> returns
  at the call; it is an input of the model.
\<close>

definition add_log :: "LogWindow \<Rightarrow> string \<Rightarrow> string \<Rightarrow> string \<Rightarrow> LogWindow" where
  "add_log w timestamp category message =
     w\<lparr>log_lines := deque_append (max_lines w) (log_lines w) (timestamp, category, message)\<rparr>"

definition clear :: "LogWindow \<Rightarrow> string \<Rightarrow> LogWindow" where
  "clear w timestamp = add_log (w\<lparr>log_lines := []\<rparr>) timestamp ''system'' ''Log cleared''"

text \<open>
  \<open>__init__\<close>: \<open>collections.deque(maxlen=max_lines)\<close> raises \<open>ValueError\<close> on a negative
  bound. Creating the window may fail; the exception is caught and only the line printed
  differs, so the outcome of window creation (\<open>window_ok\<close>) decides the console message
  and nothing else. The four timestamps are those of the four \<open>add_log\<close> calls.
\<close>

datatype console_msg = WindowCreated | WindowError

definition LogWindow_init ::
  "string \<Rightarrow> int \<times> int \<Rightarrow> int \<Rightarrow> bool \<Rightarrow> string \<Rightarrow> string \<Rightarrow> string \<Rightarrow> string
     \<Rightarrow> py_error + (LogWindow \<times> console_msg)" where
  "LogWindow_init name wsize maxl window_ok t1 t2 t3 t4 =
     (if maxl < 0 then Inl ValueError
      else
        let w0 = \<lparr>window_name = name, window_size = wsize, max_lines = maxl, log_lines = []\<rparr>;
            out = (if window_ok then WindowCreated else WindowError);
            w1 = add_log w0 t1 ''system'' ''Log window initialized'';
            w2 = add_log w1 t2 ''system'' ''Press keys 1-5 to toggle diagnostic categories'';
            w3 = add_log w2 t3 ''system'' ''Press 'f' to force a full diagnostic log'';
            w4 = add_log w3 t4 ''system'' ''window can be resized by dragging''
        in Inr (w4, out))"

subsection \<open>Rendering\<close>

text \<open>
  The drawing backend is a capability; what \<open>render\<close> asks of it is kept as the list of
  the calls made. All text is drawn with the same font, scale \<open>0.5\<close> and thickness \<open>1\<close>.
\<close>

datatype draw_cmd =
    Rectangle "int \<times> int" "int \<times> int" colour
  | PutText string "int \<times> int" colour

datatype render_result = Presented "draw_cmd list" | RenderError

definition upper_char :: "char \<Rightarrow> char" where
  "upper_char c =
     (let n = (of_char c :: nat) in if 97 \<le> n \<and> n \<le> 122 then char_of (n - 32) else c)"

definition upper :: "string \<Rightarrow> string" where
  "upper s = map upper_char s"

definition draw_line :: "int \<times> log_line \<Rightarrow> draw_cmd list" where
  "draw_line yl =
     (case yl of (y_pos, timestamp, category, message) \<Rightarrow>
        let color = (case map_of category_colors category of
                       Some c \<Rightarrow> c | None \<Rightarrow> (200, 200, 200))
        in [PutText timestamp (10, y_pos) (150, 150, 150),
            PutText (''['' @ upper category @ '']'') (100, y_pos) color,
            PutText message (240, y_pos) (220, 220, 220)])"

text \<open>
  The body of \<open>for i in range(start_idx, len(self.log_lines))\<close>, run over the records from
  \<open>start_idx\<close> on: a record is drawn at \<open>y_pos\<close>, \<open>y_pos\<close> grows by the line height, and the
  loop breaks when the new \<open>y_pos\<close> has reached \<open>height - 10\<close>. The result lists the records
  drawn with the \<open>y_pos\<close> of each.
\<close>

fun render_loop :: "int \<Rightarrow> int \<Rightarrow> log_line list \<Rightarrow> (int \<times> log_line) list" where
  "render_loop height y_pos [] = []"
| "render_loop height y_pos (l # ls) =
     (y_pos, l) #
       (if height - 10 \<le> y_pos + line_height then []
        else render_loop height (y_pos + line_height) ls)"

definition visible_lines :: "LogWindow \<Rightarrow> int" where
  "visible_lines w = min (snd (window_size w) div line_height) (int (length (log_lines w)))"

definition start_idx :: "LogWindow \<Rightarrow> int" where
  "start_idx w = max 0 (int (length (log_lines w)) - visible_lines w)"

definition drawn_lines :: "LogWindow \<Rightarrow> (int \<times> log_line) list" where
  "drawn_lines w = render_loop (snd (window_size w)) 20 (drop (nat (start_idx w)) (log_lines w))"

text \<open>
  \<open>render\<close>: \<open>np.zeros\<close> raises on a negative dimension and the backend may fail
  (\<open>backend_ok\<close> false); every exception is caught, a message is printed and nothing is
  presented.
\<close>

definition render :: "LogWindow \<Rightarrow> bool \<Rightarrow> render_result" where
  "render w backend_ok =
     (case window_size w of (width, height) \<Rightarrow>
        if width < 0 \<or> height < 0 \<or> \<not> backend_ok then RenderError
        else Presented (Rectangle (0, 0) (width, height) (20, 20, 20)
                          # concat (map draw_line (drawn_lines w))))"

text \<open>The operations of a window after its construction, and a run of them.\<close>

datatype window_op = AddLog string string string | Clear string | Render bool

fun apply_window_op :: "LogWindow \<Rightarrow> window_op \<Rightarrow> LogWindow" where
  "apply_window_op w (AddLog timestamp category message) = add_log w timestamp category message"
| "apply_window_op w (Clear timestamp) = clear w timestamp"
| "apply_window_op w (Render backend_ok) = w"

definition run_window :: "LogWindow \<Rightarrow> window_op list \<Rightarrow> LogWindow" where
  "run_window w ops = foldl apply_window_op w ops"

text \<open>A sequence of \<open>add_log\<close> calls, one per record.\<close>

definition add_logs :: "LogWindow \<Rightarrow> log_line list \<Rightarrow> LogWindow" where
  "add_logs w rs = foldl (\<lambda>w' (t, c, m). add_log w' t c m) w rs"

section \<open>The logging module and the \<open>LoggingManager\<close>\<close>

subsection \<open>Python's \<open>logging\<close> module, as far as the manager uses it\<close>

text \<open>
  Levels are Python integers. A logger object has a level, a propagation flag and a list
  of handlers. The module keeps one logger object per name; a reference to a logger is
  its name, the root logger's being \<open>root\<close>. The module's table of loggers is \<open>store\<close>.
  \<open>emitted\<close> lists the emission calls made on loggers (\<open>logger.log(level, msg)\<close>,
  \<open>logger.info(msg)\<close>), in order: the logger, the level and the message of each. Whether
  the logger's level lets a record through to its handlers is the library's business and
  not part of this list.
\<close>

definition NOTSET :: int where "NOTSET = 0"
definition DEBUG :: int where "DEBUG = 10"
definition INFO :: int where "INFO = 20"
definition WARNING :: int where "WARNING = 30"
definition ERROR :: int where "ERROR = 40"
definition CRITICAL :: int where "CRITICAL = 50"

datatype formatter = standard_format | detailed_format

datatype handler =
    StreamHandler formatter
  | RotatingFileHandler string int int formatter

record logger =
  level :: int
  propagate :: bool
  handlers :: "handler list"

record world =
  store :: "(string \<times> logger) list"
  emitted :: "(string \<times> int \<times> string) list"

text \<open>
  \<open>logging.getLogger(name)\<close> returns the logger of that name and creates it when the
  module has none: level \<open>NOTSET\<close>, propagating, no handlers. The empty name (and no
  name) gives the root logger, whose level is \<open>WARNING\<close> until set.
\<close>

definition ref_of :: "string \<Rightarrow> string" where
  "ref_of name = (if name = [] then ''root'' else name)"

definition new_logger :: "string \<Rightarrow> logger" where
  "new_logger ref =
     \<lparr>level = (if ref = ''root'' then WARNING else NOTSET), propagate = True, handlers = []\<rparr>"

definition getLogger :: "string \<Rightarrow> world \<Rightarrow> string \<times> world" where
  "getLogger name w =
     (let ref = ref_of name in
        case map_of (store w) ref of
          Some l \<Rightarrow> (ref, w)
        | None \<Rightarrow> (ref, w\<lparr>store := AList.update ref (new_logger ref) (store w)\<rparr>))"

text \<open>
  The logger object behind a reference: the one the module holds, or the one
  \<open>getLogger\<close> would create.
\<close>

definition logger_of :: "world \<Rightarrow> string \<Rightarrow> logger" where
  "logger_of w ref = (case map_of (store w) ref of Some l \<Rightarrow> l | None \<Rightarrow> new_logger ref)"

definition setLevel :: "string \<Rightarrow> int \<Rightarrow> world \<Rightarrow> world" where
  "setLevel ref lvl w = w\<lparr>store := AList.map_entry ref (\<lambda>l. l\<lparr>level := lvl\<rparr>) (store w)\<rparr>"

definition set_propagate :: "string \<Rightarrow> bool \<Rightarrow> world \<Rightarrow> world" where
  "set_propagate ref b w = w\<lparr>store := AList.map_entry ref (\<lambda>l. l\<lparr>propagate := b\<rparr>) (store w)\<rparr>"

definition addHandler :: "string \<Rightarrow> handler \<Rightarrow> world \<Rightarrow> world" where
  "addHandler ref h w =
     w\<lparr>store := AList.map_entry ref (\<lambda>l. l\<lparr>handlers := handlers l @ [h]\<rparr>) (store w)\<rparr>"

definition removeHandlers :: "string \<Rightarrow> world \<Rightarrow> world" where
  "removeHandlers ref w = w\<lparr>store := AList.map_entry ref (\<lambda>l. l\<lparr>handlers := []\<rparr>) (store w)\<rparr>"

definition log_call :: "string \<Rightarrow> int \<Rightarrow> string \<Rightarrow> world \<Rightarrow> world" where
  "log_call ref lvl message w = w\<lparr>emitted := emitted w @ [(ref, lvl, message)]\<rparr>"

text \<open>
  The file system is an input: which directories \<open>os.makedirs\<close> can create (or finds
  there) and which files a \<open>RotatingFileHandler\<close> can open. Both raise \<open>OSError\<close> otherwise.
\<close>

record fs_env =
  makedirs_ok :: "string \<Rightarrow> bool"
  open_ok :: "string \<Rightarrow> bool"

text \<open>\<open>os.path.join\<close> of two components, on POSIX.\<close>

definition os_path_join :: "string \<Rightarrow> string \<Rightarrow> string" where
  "os_path_join a b =
     (if b \<noteq> [] \<and> hd b = CHR ''/'' then b
      else if a = [] \<or> last a = CHR ''/'' then a @ b
      else a @ ''/'' @ b)"

text \<open>\<open>str\<close> of a Python integer, as the f-string of the rate limiter's key formats it.\<close>

definition digit_char :: "nat \<Rightarrow> char" where
  "digit_char d = char_of (48 + d)"

fun digits :: "nat \<Rightarrow> string" where
  "digits n = (if n < 10 then [digit_char n] else digits (n div 10) @ [digit_char (n mod 10)])"

declare digits.simps [simp del]

definition str_int :: "int \<Rightarrow> string" where
  "str_int i = (if i < 0 then CHR ''-'' # digits (nat (- i)) else digits (nat i))"

subsection \<open>The manager\<close>

text \<open>
  The dictionaries of the manager are association lists in insertion order, as Python's
  dictionaries are; \<open>AList.update\<close> overwrites a key in place and appends a new one.
  \<open>loggers\<close> and \<open>special_loggers\<close> hold references to logger objects of the module.
  Times are those of \<open>time.time()\<close>, taken as real numbers.
\<close>

record LoggingManager =
  log_dir :: string
  default_level :: int
  enable_console :: bool
  enable_file :: bool
  max_file_size_mb :: int
  backup_count :: int
  loggers :: "(string \<times> string) list"
  special_loggers :: "(string \<times> string option) list"
  rate_limiters :: "(string \<times> real) list"

definition special_names :: "string list" where
  "special_names = [''diagnostic'', ''sensor'', ''sync'', ''control'', ''performance'']"

definition get_logger :: "LoggingManager \<Rightarrow> world \<Rightarrow> string \<Rightarrow> string \<times> LoggingManager \<times> world" where
  "get_logger m w name =
     (case map_of (loggers m) name of
        Some ref \<Rightarrow> (ref, m, w)
      | None \<Rightarrow>
          (case getLogger name w of (ref, w1) \<Rightarrow>
             let w2 = (if map_of (special_loggers m) name \<noteq> None
                       then set_propagate ref False w1 else w1)
             in (ref, m\<lparr>loggers := AList.update name ref (loggers m)\<rparr>, w2)))"

definition file_handler :: "LoggingManager \<Rightarrow> string \<Rightarrow> handler" where
  "file_handler m file =
     RotatingFileHandler (os_path_join (log_dir m) file)
       (max_file_size_mb m * 1024 * 1024) (backup_count m) detailed_format"

definition configure_root_logger ::
  "fs_env \<Rightarrow> LoggingManager \<Rightarrow> world \<Rightarrow> (py_error + LoggingManager) \<times> world" where
  "configure_root_logger env m w =
     (case getLogger [] w of (root_logger, w1) \<Rightarrow>
        let w2 = removeHandlers root_logger w1;
            w3 = setLevel root_logger (default_level m) w2;
            w4 = (if enable_console m
                  then addHandler root_logger (StreamHandler standard_format) w3 else w3);
            m1 = m\<lparr>loggers := AList.update ''root'' root_logger (loggers m)\<rparr>
        in if enable_file m then
             (if open_ok env (os_path_join (log_dir m) ''main.log'')
              then (Inr m1, addHandler root_logger (file_handler m ''main.log'') w4)
              else (Inl OSError, w4))
           else (Inr m1, w4))"

text \<open>
  The loop of \<open>_initialize_special_loggers\<close> over the keys of \<open>special_loggers\<close>; the
  assignments inside it only overwrite values of keys that are there.
\<close>

fun special_loop ::
  "fs_env \<Rightarrow> string list \<Rightarrow> LoggingManager \<Rightarrow> world \<Rightarrow> (py_error + LoggingManager) \<times> world" where
  "special_loop env [] m w = (Inr m, w)"
| "special_loop env (category # rest) m w =
     (case get_logger m w category of (ref, m1, w1) \<Rightarrow>
        if enable_file m1 then
          (if open_ok env (os_path_join (log_dir m1) (category @ ''.log''))
           then special_loop env rest
                  (m1\<lparr>special_loggers := AList.update category (Some ref) (special_loggers m1)\<rparr>)
                  (addHandler ref (file_handler m1 (category @ ''.log'')) w1)
           else (Inl OSError, w1))
        else special_loop env rest
               (m1\<lparr>special_loggers := AList.update category (Some ref) (special_loggers m1)\<rparr>) w1)"

definition initialize_special_loggers ::
  "fs_env \<Rightarrow> LoggingManager \<Rightarrow> world \<Rightarrow> (py_error + LoggingManager) \<times> world" where
  "initialize_special_loggers env m w = special_loop env (map fst (special_loggers m)) m w"

definition LoggingManager_init ::
  "fs_env \<Rightarrow> string \<Rightarrow> int \<Rightarrow> bool \<Rightarrow> bool \<Rightarrow> int \<Rightarrow> int \<Rightarrow> world
     \<Rightarrow> (py_error + LoggingManager) \<times> world" where
  "LoggingManager_init env dir lvl console file size_mb backups w =
     (if \<not> makedirs_ok env dir then (Inl OSError, w)
      else
        let m0 = \<lparr>log_dir = dir, default_level = lvl, enable_console = console,
                  enable_file = file, max_file_size_mb = size_mb, backup_count = backups,
                  loggers = [],
                  special_loggers = [(''diagnostic'', None), (''sensor'', None), (''sync'', None),
                                     (''control'', None), (''performance'', None)],
                  rate_limiters = []\<rparr>
        in case configure_root_logger env m0 w of
             (Inl e, w1) \<Rightarrow> (Inl e, w1)
           | (Inr m1, w1) \<Rightarrow> initialize_special_loggers env m1 w1)"

text \<open>
  \<open>set_level\<close>: with no list, every logger among the values of \<open>loggers\<close>; with a list,
  the loggers registered under the names of the list, a name that is not registered
  being skipped by the test \<open>name in self.loggers\<close>.
\<close>

definition set_level :: "LoggingManager \<Rightarrow> world \<Rightarrow> int \<Rightarrow> string list option \<Rightarrow> world" where
  "set_level m w lvl names =
     (case names of
        None \<Rightarrow> foldl (\<lambda>w' ref. setLevel ref lvl w') w (map snd (loggers m))
      | Some ns \<Rightarrow>
          foldl (\<lambda>w' name. case map_of (loggers m) name of
                              Some ref \<Rightarrow> setLevel ref lvl w'
                            | None \<Rightarrow> w') w ns)"

text \<open>
  \<open>toggle_special_logger\<close>: a logger object is true, \<open>None\<close> is false. The lookup
  \<open>self.loggers['root']\<close> raises \<open>KeyError\<close> when there is no such key. The result is the
  exception raised, if any, and the world.
\<close>

definition toggle_message :: "string \<Rightarrow> bool \<Rightarrow> string" where
  "toggle_message category enable =
     (if enable then ''Enabled'' else ''Disabled'') @ '' '' @ category @ '' logging''"

definition toggle_special_logger ::
  "LoggingManager \<Rightarrow> world \<Rightarrow> string \<Rightarrow> bool \<Rightarrow> py_error option \<times> world" where
  "toggle_special_logger m w category enable =
     (case map_of (special_loggers m) category of
        Some (Some ref) \<Rightarrow>
          let lvl = (if enable then DEBUG else CRITICAL);
              w1 = setLevel ref lvl w
          in (case map_of (loggers m) ''root'' of
                None \<Rightarrow> (Some KeyError, w1)
              | Some root_logger \<Rightarrow>
                  (None, log_call root_logger INFO (toggle_message category enable) w1))
      | _ \<Rightarrow> (None, w))"

text \<open>
  \<open>rate_limited_log\<close>: \<open>logger\<close> is the reference of the logger passed, which is its name;
  \<open>current_time\<close> is what \<open>time.time()\<close> returns at the call. The quotient
  \<open>1.0 / limit_per_second\<close> raises \<open>ZeroDivisionError\<close> on a zero limit; it is computed only
  when the key is there already.
\<close>

definition rate_key :: "string \<Rightarrow> int \<Rightarrow> string" where
  "rate_key logger lvl = logger @ '':'' @ str_int lvl"

definition rate_limited_log ::
  "LoggingManager \<Rightarrow> world \<Rightarrow> string \<Rightarrow> int \<Rightarrow> string \<Rightarrow> real \<Rightarrow> real
     \<Rightarrow> py_error + (LoggingManager \<times> world)" where
  "rate_limited_log m w logger lvl message limit_per_second current_time =
     (let key = rate_key logger lvl in
        case map_of (rate_limiters m) key of
          None \<Rightarrow>
            Inr (m\<lparr>rate_limiters := AList.update key current_time (rate_limiters m)\<rparr>,
                 log_call logger lvl message w)
        | Some last_log_time \<Rightarrow>
            if limit_per_second = 0 then Inl ZeroDivisionError
            else if 1 / limit_per_second \<le> current_time - last_log_time
            then Inr (m\<lparr>rate_limiters := AList.update key current_time (rate_limiters m)\<rparr>,
                      log_call logger lvl message w)
            else Inr (m, w))"

subsection \<open>The global manager\<close>

text \<open>
  The process: the module variable \<open>_logging_manager\<close> and the world. \<open>initialize_logging\<close>
  passes four arguments on; the file size and the backup count keep the defaults of
  \<open>LoggingManager.__init__\<close>, \<open>10\<close> and \<open>5\<close>.
\<close>

record process =
  logging_manager :: "LoggingManager option"
  pworld :: world

definition initialize_logging ::
  "fs_env \<Rightarrow> string \<Rightarrow> int \<Rightarrow> bool \<Rightarrow> bool \<Rightarrow> process \<Rightarrow> (py_error + LoggingManager) \<times> process" where
  "initialize_logging env dir lvl console file p =
     (case logging_manager p of
        Some m \<Rightarrow> (Inr m, p)
      | None \<Rightarrow>
          (case LoggingManager_init env dir lvl console file 10 5 (pworld p) of
             (Inl e, w1) \<Rightarrow> (Inl e, p\<lparr>pworld := w1\<rparr>)
           | (Inr m, w1) \<Rightarrow> (Inr m, p\<lparr>logging_manager := Some m, pworld := w1\<rparr>)))"


subsection \<open>Invariants of the manager's state\<close>

text \<open>
  What holds of a manager and the world once \<open>__init__\<close> has returned, and after every
  method: the keys of \<open>special_loggers\<close> are the five names, the keys of \<open>loggers\<close> are
  distinct, the root logger is registered as \<open>root\<close>, every registered reference is a
  logger of the module, and a special logger that is set is the one registered under
  its category.
\<close>

definition manager_inv :: "LoggingManager \<Rightarrow> world \<Rightarrow> bool" where
  "manager_inv m w =
     (map fst (special_loggers m) = special_names \<and>
      distinct (map fst (loggers m)) \<and>
      map_of (loggers m) ''root'' = Some ''root'' \<and>
      list_all (\<lambda>(name, ref). map_of (store w) ref \<noteq> None) (loggers m) \<and>
      list_all (\<lambda>(category, r). case r of None \<Rightarrow> True
                                 | Some ref \<Rightarrow> map_of (loggers m) category = Some ref)
        (special_loggers m))"

text \<open>
  No logger of the module outside the five special names has had its propagation
  switched off: so it is in a fresh module, and the manager switches it off for the five
  names only.
\<close>

definition propagation_default :: "world \<Rightarrow> bool" where
  "propagation_default w =
     list_all (\<lambda>name. case map_of (store w) name of
                         None \<Rightarrow> True
                       | Some l \<Rightarrow> name \<in> set special_names \<or> propagate l)
       (map fst (store w))"

text \<open>
  The calls a client makes on a manager, and a run of them from a state. A call that
  raises leaves the state the exception leaves behind.
\<close>

datatype manager_op =
    GetLogger string
  | SetLevel int "string list option"
  | Toggle string bool
  | RateLimitedLog string int string real real

fun apply_manager_op :: "LoggingManager \<times> world \<Rightarrow> manager_op \<Rightarrow> LoggingManager \<times> world" where
  "apply_manager_op (m, w) (GetLogger name) =
     (case get_logger m w name of (ref, m', w') \<Rightarrow> (m', w'))"
| "apply_manager_op (m, w) (SetLevel lvl names) = (m, set_level m w lvl names)"
| "apply_manager_op (m, w) (Toggle category enable) =
     (m, snd (toggle_special_logger m w category enable))"
| "apply_manager_op (m, w) (RateLimitedLog logger lvl message limit_per_second current_time) =
     (case rate_limited_log m w logger lvl message limit_per_second current_time of
        Inl e \<Rightarrow> (m, w)
      | Inr s \<Rightarrow> s)"

definition run_manager :: "LoggingManager \<times> world \<Rightarrow> manager_op list \<Rightarrow> LoggingManager \<times> world" where
  "run_manager s ops = foldl apply_manager_op s ops"

text \<open>The module before any logger has been asked for, and a file system that allows everything.\<close>

definition fresh_world :: world where
  "fresh_world = \<lparr>store = [], emitted = []\<rparr>"

definition all_ok :: fs_env where
  "all_ok = \<lparr>makedirs_ok = (\<lambda>p. True), open_ok = (\<lambda>p. True)\<rparr>"

text \<open>
  The manager and the world that \<open>LoggingManager('logs')\<close>, with all its defaults, leaves
  in a fresh module.
\<close>

definition boot_manager :: LoggingManager where
  "boot_manager =
     \<lparr>log_dir = ''logs'', default_level = 20, enable_console = True, enable_file = True,
      max_file_size_mb = 10, backup_count = 5,
      loggers = [(''root'', ''root''), (''diagnostic'', ''diagnostic''), (''sensor'', ''sensor''),
                 (''sync'', ''sync''), (''control'', ''control''),
                 (''performance'', ''performance'')],
      special_loggers = [(''diagnostic'', Some ''diagnostic''), (''sensor'', Some ''sensor''),
                         (''sync'', Some ''sync''), (''control'', Some ''control''),
                         (''performance'', Some ''performance'')],
      rate_limiters = []\<rparr>"

definition boot_handler :: "string \<Rightarrow> handler" where
  "boot_handler file = RotatingFileHandler (''logs/'' @ file) 10485760 5 detailed_format"

definition boot_world :: world where
  "boot_world =
     \<lparr>store =
        [(''root'', \<lparr>level = 20, propagate = True,
                     handlers = [StreamHandler standard_format, boot_handler ''main.log'']\<rparr>),
         (''diagnostic'', \<lparr>level = 0, propagate = False,
                           handlers = [boot_handler ''diagnostic.log'']\<rparr>),
         (''sensor'', \<lparr>level = 0, propagate = False, handlers = [boot_handler ''sensor.log'']\<rparr>),
         (''sync'', \<lparr>level = 0, propagate = False, handlers = [boot_handler ''sync.log'']\<rparr>),
         (''control'', \<lparr>level = 0, propagate = False, handlers = [boot_handler ''control.log'']\<rparr>),
         (''performance'', \<lparr>level = 0, propagate = False,
                            handlers = [boot_handler ''performance.log'']\<rparr>)],
      emitted = []\<rparr>"

text \<open>
  What \<open>_initialize_special_loggers\<close> makes of the logger of a category: propagation off
  and, when files are enabled, the file handler of the category added.
\<close>

definition special_logger_after :: "LoggingManager \<Rightarrow> world \<Rightarrow> string \<Rightarrow> logger" where
  "special_logger_after m w category =
     (logger_of w category)
       \<lparr>propagate := False,
        handlers := handlers (logger_of w category)
          @ (if enable_file m then [file_handler m (category @ ''.log'')] else [])\<rparr>"

text \<open>
  The window that \<open>LogWindow()\<close> constructs with its defaults, all four welcome records
  stamped \<open>12:00:00\<close>, and the same window after \<open>27\<close> further calls of \<open>add_log\<close>: its
  buffer then holds \<open>31\<close> records, more than the thirty lines that fit into its height.
\<close>

definition default_window :: LogWindow where
  "default_window =
     \<lparr>window_name = ''System Logs'', window_size = (1000, 600), max_lines = 100,
      log_lines = [(''12:00:00'', ''system'', ''Log window initialized''),
                   (''12:00:00'', ''system'', ''Press keys 1-5 to toggle diagnostic categories''),
                   (''12:00:00'', ''system'', ''Press 'f' to force a full diagnostic log''),
                   (''12:00:00'', ''system'', ''window can be resized by dragging'')]\<rparr>"

definition busy_window :: LogWindow where
  "busy_window =
     add_logs default_window
       (replicate 26 (''12:00:01'', ''sensors'', ''older'') @ [(''12:00:02'', ''control'', ''newest'')])"

section \<open>Properties of the overlay\<close>

subsection \<open>The buffer never outgrows its bound\<close>

lemma deque_append_bound:
  "0 \<le> c \<Longrightarrow> int (length xs) \<le> c \<Longrightarrow> int (length (deque_append c xs x)) \<le> c"
  by (auto simp: deque_append_def Let_def)

lemma max_lines_add_log [simp]: "max_lines (add_log w t c m) = max_lines w"
  by (simp add: add_log_def)

lemma max_lines_clear [simp]: "max_lines (clear w t) = max_lines w"
  by (simp add: clear_def)

lemma add_log_bound:
  "0 \<le> max_lines w \<Longrightarrow> int (length (log_lines w)) \<le> max_lines w \<Longrightarrow>
   int (length (log_lines (add_log w t c m))) \<le> max_lines w"
  by (simp add: add_log_def deque_append_bound)

lemma clear_bound:
  "0 \<le> max_lines w \<Longrightarrow> int (length (log_lines (clear w t))) \<le> max_lines w"
  by (simp add: clear_def add_log_def deque_append_def Let_def)

lemma apply_window_op_bound:
  "0 \<le> max_lines w \<Longrightarrow> int (length (log_lines w)) \<le> max_lines w \<Longrightarrow>
   max_lines (apply_window_op w operation) = max_lines w \<and>
   int (length (log_lines (apply_window_op w operation))) \<le> max_lines w"
  by (cases operation) (simp_all add: add_log_bound clear_bound)

lemma run_window_bound:
  "0 \<le> max_lines w \<Longrightarrow> int (length (log_lines w)) \<le> max_lines w \<Longrightarrow>
   max_lines (run_window w ops) = max_lines w \<and>
   int (length (log_lines (run_window w ops))) \<le> max_lines w"
  unfolding run_window_def
proof (induction ops arbitrary: w)
  case Nil
  then show ?case by simp
next
  case (Cons a ops)
  from apply_window_op_bound [OF Cons.prems, of a]
  have "0 \<le> max_lines (apply_window_op w a)"
    and "int (length (log_lines (apply_window_op w a))) \<le> max_lines (apply_window_op w a)"
    and eq: "max_lines (apply_window_op w a) = max_lines w"
    using Cons.prems by simp_all
  from Cons.IH [OF this(1,2)] eq show ?case by simp
qed

lemma deque_append_drop:
  assumes "0 \<le> c" "int (length xs) \<le> c"
  shows "deque_append c xs x = drop (Suc (length xs) - nat c) (xs @ [x])"
proof (cases "int (length xs) < c")
  case True
  then have "Suc (length xs) - nat c = 0" by linarith
  with True show ?thesis by (simp add: deque_append_def)
next
  case False
  with assms have "int (length xs) = c" by simp
  then have "Suc (length xs) - nat c = Suc 0" by linarith
  moreover have "tl (xs @ [x]) = drop (Suc 0) (xs @ [x])"
    by (simp only: drop_Suc drop_0)
  ultimately show ?thesis using False by (simp add: deque_append_def del: drop_append)
qed

lemma drop_app_le: "n \<le> length xs \<Longrightarrow> drop n xs @ ys = drop n (xs @ ys)"
  by simp

lemma drop_index_aux:
  "n \<le> c \<Longrightarrow> Suc n - (Suc n - c) + k - c + (Suc n - c) = n + Suc k - (c::nat)"
proof (cases "n < c")
  case True
  then have "Suc n - c = 0" by simp
  then show ?thesis by simp
next
  case False
  assume "n \<le> c"
  with False have "n = c" by simp
  then show ?thesis by simp
qed

lemma add_logs_lines:
  "0 \<le> max_lines w \<Longrightarrow> int (length (log_lines w)) \<le> max_lines w \<Longrightarrow>
   max_lines (add_logs w rs) = max_lines w \<and>
   log_lines (add_logs w rs) =
     drop (length (log_lines w) + length rs - nat (max_lines w)) (log_lines w @ rs)"
  unfolding add_logs_def
proof (induction rs arbitrary: w)
  case Nil
  then show ?case by simp
next
  case (Cons r rs)
  obtain t c m where r: "r = (t, c, m)" by (cases r)
  let ?w = "add_log w t c m"
  let ?L = "log_lines w"
  let ?c = "nat (max_lines w)"
  let ?a = "Suc (length ?L) - ?c"
  have b: "0 \<le> max_lines ?w" "int (length (log_lines ?w)) \<le> max_lines ?w"
    using Cons.prems add_log_bound [of w t c m] by simp_all
  have l: "log_lines ?w = drop ?a (?L @ [r])"
    using Cons.prems by (simp add: add_log_def deque_append_drop r del: drop_append)
  have a: "?a \<le> Suc (length ?L)" by simp
  have "drop ?a (?L @ [r]) @ rs = drop ?a ((?L @ [r]) @ rs)"
    using a by (intro drop_app_le) simp
  then have cat: "log_lines ?w @ rs = drop ?a (?L @ r # rs)"
    unfolding l by (simp del: drop_append)
  have len: "length (log_lines ?w) = Suc (length ?L) - ?a"
    unfolding l by simp
  from Cons.IH [OF b] have
    m: "max_lines (foldl (\<lambda>w' (t, c, m). add_log w' t c m) ?w rs) = max_lines w" and
    "log_lines (foldl (\<lambda>w' (t, c, m). add_log w' t c m) ?w rs)
       = drop (length (log_lines ?w) + length rs - ?c) (log_lines ?w @ rs)"
    by simp_all
  then have "log_lines (foldl (\<lambda>w' (t, c, m). add_log w' t c m) ?w rs)
       = drop (Suc (length ?L) - ?a + length rs - ?c + ?a) (?L @ r # rs)"
    unfolding cat len by (simp only: drop_drop)
  moreover have "Suc (length ?L) - ?a + length rs - ?c + ?a = length ?L + length (r # rs) - ?c"
  proof -
    from Cons.prems have "length ?L \<le> ?c" by linarith
    then show ?thesis by (simp only: list.size drop_index_aux)
  qed
  ultimately show ?case using m by (simp add: r)
qed

lemma LogWindow_init_deque_inv:
  assumes "LogWindow_init name wsize maxl window_ok t1 t2 t3 t4 = Inr (w, out)"
  shows "max_lines w = maxl \<and> 0 \<le> max_lines w \<and> int (length (log_lines w)) \<le> max_lines w"
proof -
  from assms have nn: "0 \<le> maxl"
    by (simp add: LogWindow_init_def split: if_splits)
  let ?w0 = "\<lparr>window_name = name, window_size = wsize, max_lines = maxl, log_lines = []\<rparr>"
  let ?rs = "[(t1, ''system'', ''Log window initialized''),
              (t2, ''system'', ''Press keys 1-5 to toggle diagnostic categories''),
              (t3, ''system'', ''Press 'f' to force a full diagnostic log''),
              (t4, ''system'', ''window can be resized by dragging'')]"
  from assms nn have w: "w = add_logs ?w0 ?rs"
    by (simp add: LogWindow_init_def add_logs_def Let_def)
  have "max_lines (add_logs ?w0 ?rs) = maxl"
    using add_logs_lines [of ?w0 ?rs] nn by simp
  moreover have "int (length (log_lines (add_logs ?w0 ?rs))) \<le> maxl"
    using add_logs_lines [of ?w0 ?rs] nn by (simp del: drop_Suc_Cons)
  ultimately show ?thesis using nn w by simp
qed

text \<open>
  Claim C3. A buffer of bound \<open>max_lines\<close> that takes \<open>max_lines + k\<close> records through
  \<open>add_log\<close>, with \<open>k > 0\<close>, holds exactly \<open>max_lines\<close> records afterwards: the last
  \<open>max_lines\<close> of those added, in the order they were added. Whatever operations are run
  on a window, its buffer is never longer than its bound.
\<close>

theorem add_log_ring_buffer:
  assumes "0 \<le> max_lines w" and "int (length (log_lines w)) \<le> max_lines w"
    and "0 < k" and "int (length rs) = max_lines w + k"
  shows "log_lines (add_logs w rs) = drop (nat k) rs
       \<and> int (length (log_lines (add_logs w rs))) = max_lines w
       \<and> int (length (log_lines (run_window w ops))) \<le> max_lines w"
proof -
  let ?n = "length (log_lines w)"
  have idx: "?n + length rs - nat (max_lines w) = ?n + nat k"
    using assms by linarith
  have "log_lines (add_logs w rs) = drop (?n + nat k) (log_lines w @ rs)"
    using add_logs_lines [OF assms(1,2), of rs] idx by simp
  then have l: "log_lines (add_logs w rs) = drop (nat k) rs" by simp
  have "int (length (drop (nat k) rs)) = max_lines w"
    using assms by simp
  with l run_window_bound [OF assms(1,2), of ops] show ?thesis by simp
qed

theorem add_log_ring_buffer_witness:
  "log_lines (add_logs \<lparr>window_name = ''System Logs'', window_size = (1000, 600),
                        max_lines = 2, log_lines = [(''12:00:00'', ''system'', ''zero'')]\<rparr>
       [(''12:00:01'', ''sync'', ''one''), (''12:00:02'', ''sync'', ''two''),
        (''12:00:03'', ''control'', ''three'')])
     = [(''12:00:02'', ''sync'', ''two''), (''12:00:03'', ''control'', ''three'')]
   \<and> int (length (log_lines (run_window
         \<lparr>window_name = ''System Logs'', window_size = (1000, 600),
          max_lines = 2, log_lines = [(''12:00:00'', ''system'', ''zero'')]\<rparr>
         [AddLog ''12:00:01'' ''sync'' ''one'', Render True, AddLog ''12:00:02'' ''sync'' ''two'',
          Clear ''12:00:03'', AddLog ''12:00:04'' ''sync'' ''four'']))) \<le> 2"
  using add_log_ring_buffer [of
      "\<lparr>window_name = ''System Logs'', window_size = (1000, 600),
        max_lines = 2, log_lines = [(''12:00:00'', ''system'', ''zero'')]\<rparr>"
      1
      "[(''12:00:01'', ''sync'', ''one''), (''12:00:02'', ''sync'', ''two''),
        (''12:00:03'', ''control'', ''three'')]"
      "[AddLog ''12:00:01'' ''sync'' ''one'', Render True, AddLog ''12:00:02'' ''sync'' ''two'',
          Clear ''12:00:03'', AddLog ''12:00:04'' ''sync'' ''four'']"]
  by simp

subsection \<open>Clearing\<close>

text \<open>
  Claim C9 says that the buffer holds exactly the record \<open>system / Log cleared\<close> after
  \<open>clear\<close>, whatever it held before. A window built with bound \<open>0\<close> is a counterexample:
  its deque drops the record at once and the buffer is empty after \<open>clear\<close>.
\<close>

theorem clear_capacity_zero:
  "LogWindow_init ''System Logs'' (1000, 600) 0 True ''12:00:00'' ''12:00:00'' ''12:00:00'' ''12:00:00''
     = Inr (\<lparr>window_name = ''System Logs'', window_size = (1000, 600), max_lines = 0,
              log_lines = []\<rparr>, WindowCreated)
   \<and> log_lines (clear \<lparr>window_name = ''System Logs'', window_size = (1000, 600), max_lines = 0,
              log_lines = []\<rparr> ''12:00:01'') = []"
  by (simp add: LogWindow_init_def clear_def add_log_def deque_append_def)

text \<open>
  Claim C9, amended: for every window whose bound is at least \<open>1\<close> and whatever its
  buffer held before, the buffer after \<open>clear\<close> holds exactly one record, of category
  \<open>system\<close> and message \<open>Log cleared\<close>; nothing else of the window changes.
\<close>

theorem clear_single_record:
  assumes "1 \<le> max_lines w"
  shows "log_lines (clear w timestamp) = [(timestamp, ''system'', ''Log cleared'')]
       \<and> max_lines (clear w timestamp) = max_lines w
       \<and> window_size (clear w timestamp) = window_size w
       \<and> window_name (clear w timestamp) = window_name w"
  using assms by (simp add: clear_def add_log_def deque_append_def)

theorem clear_single_record_witness:
  "log_lines (clear \<lparr>window_name = ''System Logs'', window_size = (1000, 600), max_lines = 100,
        log_lines = [(''11:59:58'', ''sync'', ''drift''), (''11:59:59'', ''control'', ''brake'')]\<rparr>
      ''12:00:00'') = [(''12:00:00'', ''system'', ''Log cleared'')]"
  using clear_single_record [of "\<lparr>window_name = ''System Logs'', window_size = (1000, 600),
        max_lines = 100,
        log_lines = [(''11:59:58'', ''sync'', ''drift''), (''11:59:59'', ''control'', ''brake'')]\<rparr>"
      "''12:00:00''"]
  by simp

subsection \<open>Construction\<close>

text \<open>
  Claim C10 says that the buffer holds the four welcome records once the constructor has
  returned. A window built with bound \<open>2\<close> is a counterexample: it holds the last two.
\<close>

theorem init_capacity_two:
  "LogWindow_init ''System Logs'' (1000, 600) 2 True ''12:00:00'' ''12:00:00'' ''12:00:00'' ''12:00:00''
     = Inr (\<lparr>window_name = ''System Logs'', window_size = (1000, 600), max_lines = 2,
              log_lines = [(''12:00:00'', ''system'', ''Press 'f' to force a full diagnostic log''),
                           (''12:00:00'', ''system'', ''window can be resized by dragging'')]\<rparr>,
            WindowCreated)"
  by (simp add: LogWindow_init_def add_log_def deque_append_def)

text \<open>
  Claim C10, amended: when the bound is at least \<open>4\<close>, the constructor returns a window
  whose buffer holds exactly the four welcome records, all of category \<open>system\<close>, in the
  order they were added, whether creating the window succeeded or not.
\<close>

theorem init_welcome_records:
  assumes "4 \<le> maxl"
  shows "LogWindow_init name wsize maxl window_ok t1 t2 t3 t4
     = Inr (\<lparr>window_name = name, window_size = wsize, max_lines = maxl,
              log_lines = [(t1, ''system'', ''Log window initialized''),
                           (t2, ''system'', ''Press keys 1-5 to toggle diagnostic categories''),
                           (t3, ''system'', ''Press 'f' to force a full diagnostic log''),
                           (t4, ''system'', ''window can be resized by dragging'')]\<rparr>,
            if window_ok then WindowCreated else WindowError)"
  using assms by (simp add: LogWindow_init_def add_log_def deque_append_def)

theorem init_welcome_records_witness:
  "LogWindow_init ''System Logs'' (1000, 600) 100 False ''12:00:00'' ''12:00:00'' ''12:00:01'' ''12:00:01''
     = Inr (\<lparr>window_name = ''System Logs'', window_size = (1000, 600), max_lines = 100,
              log_lines = [(''12:00:00'', ''system'', ''Log window initialized''),
                           (''12:00:00'', ''system'', ''Press keys 1-5 to toggle diagnostic categories''),
                           (''12:00:01'', ''system'', ''Press 'f' to force a full diagnostic log''),
                           (''12:00:01'', ''system'', ''window can be resized by dragging'')]\<rparr>,
            WindowError)"
  using init_welcome_records [of 100 "''System Logs''" "(1000, 600)" False
     "''12:00:00''" "''12:00:00''" "''12:00:01''" "''12:00:01''"]
  by simp


subsection \<open>Rendering\<close>

text \<open>
  The loop draws the first \<open>n\<close> of the records it is given, where \<open>n\<close> is the first count
  at which \<open>y_pos\<close> reaches \<open>height - 10\<close>.
\<close>

lemma render_loop_take:
  "0 < n \<Longrightarrow> height - 10 \<le> y_pos + 20 * int n
     \<Longrightarrow> n = 1 \<or> y_pos + 20 * (int n - 1) < height - 10
     \<Longrightarrow> map snd (render_loop height y_pos ls) = take n ls"
proof (induction ls arbitrary: y_pos n)
  case Nil
  then show ?case by simp
next
  case (Cons l ls)
  show ?case
  proof (cases "n = 1")
    case True
    with Cons.prems show ?thesis by (simp add: line_height_def)
  next
    case False
    with Cons.prems obtain k where n: "n = Suc k" and k: "0 < k"
      by (cases n) auto
    have lt: "y_pos + 20 * int k < height - 10"
      using Cons.prems(3) False unfolding n by simp
    have go: "\<not> height - 10 \<le> y_pos + line_height"
      using lt k unfolding line_height_def by simp
    have "map snd (render_loop height (y_pos + 20) ls) = take k ls"
    proof (rule Cons.IH)
      show "0 < k" by (rule k)
      show "height - 10 \<le> y_pos + 20 + 20 * int k"
        using Cons.prems(2) unfolding n by simp
      show "k = 1 \<or> y_pos + 20 + 20 * (int k - 1) < height - 10"
        using lt by simp
    qed
    with go show ?thesis by (simp add: n line_height_def)
  qed
qed

text \<open>How many records \<open>render\<close> draws when the buffer holds more than fit.\<close>

lemma drawn_lines_overfull:
  assumes h: "snd (window_size w) = 20 * v + r" and r: "0 \<le> r" "r < 20" and v: "1 \<le> v"
    and m: "v < int (length (log_lines w))"
  shows "map snd (drawn_lines w) =
           take (if r \<le> 10 \<and> 2 \<le> v then nat v - 1 else nat v)
             (drop (length (log_lines w) - nat v) (log_lines w))"
proof -
  have d: "snd (window_size w) div line_height = v"
    using h r by (simp add: line_height_def)
  have vis: "visible_lines w = v"
    using m by (simp add: visible_lines_def d)
  have st: "nat (start_idx w) = length (log_lines w) - nat v"
    using m v by (simp add: start_idx_def vis)
  let ?n = "if r \<le> 10 \<and> 2 \<le> v then nat v - 1 else nat v"
  have "map snd (render_loop (20 * v + r) 20 (drop (length (log_lines w) - nat v) (log_lines w)))
          = take ?n (drop (length (log_lines w) - nat v) (log_lines w))"
  proof (cases "r \<le> 10 \<and> 2 \<le> v")
    case True
    then have "int (nat v - 1) = v - 1" by linarith
    with True r show ?thesis by (intro render_loop_take [where n = "?n"]) simp_all
  next
    case False
    then have n: "?n = nat v" by (rule if_not_P)
    have iv: "int (nat v) = v" using v by simp
    have "map snd (render_loop (20 * v + r) 20
              (drop (length (log_lines w) - nat v) (log_lines w)))
          = take (nat v) (drop (length (log_lines w) - nat v) (log_lines w))"
    proof (rule render_loop_take)
      show "0 < nat v" using v by simp
      show "20 * v + r - 10 \<le> 20 + 20 * int (nat v)"
        unfolding iv using r by simp
      show "nat v = 1 \<or> 20 + 20 * (int (nat v) - 1) < 20 * v + r - 10"
        unfolding iv using False v by auto
    qed
    then show ?thesis by (simp only: n)
  qed
  then show ?thesis by (simp add: drawn_lines_def h st)
qed

lemma busy_window_lines:
  "log_lines busy_window = log_lines default_window
     @ replicate 26 (''12:00:01'', ''sensors'', ''older'') @ [(''12:00:02'', ''control'', ''newest'')]"
proof -
  have "log_lines busy_window =
     drop (length (log_lines default_window)
             + length (replicate 26 (''12:00:01'', ''sensors'', ''older'')
                        @ [(''12:00:02'', ''control'', ''newest'')])
             - nat (max_lines default_window))
       (log_lines default_window
          @ replicate 26 (''12:00:01'', ''sensors'', ''older'') @ [(''12:00:02'', ''control'', ''newest'')])"
    unfolding busy_window_def
    using add_logs_lines [of default_window] by (simp add: default_window_def)
  then show ?thesis by (simp add: default_window_def)
qed

lemma add_logs_window_size: "window_size (add_logs w rs) = window_size w"
  unfolding add_logs_def by (induction rs arbitrary: w) (auto simp: add_log_def)

lemma busy_window_drawn:
  "map snd (drawn_lines busy_window) = take 29 (drop 1 (log_lines busy_window))"
proof -
  have "map snd (drawn_lines busy_window) =
           take (if (0::int) \<le> 10 \<and> (2::int) \<le> 30 then nat 30 - 1 else nat 30)
             (drop (length (log_lines busy_window) - nat 30) (log_lines busy_window))"
    by (rule drawn_lines_overfull)
       (simp_all add: busy_window_lines, simp_all add: busy_window_def add_logs_window_size default_window_def)
  then show ?thesis by (simp add: busy_window_lines default_window_def)
qed

text \<open>
  Claim C2 says that \<open>render\<close> draws the \<open>V\<close> most recent records when the buffer holds
  more than \<open>V\<close>, where \<open>V\<close> is the height divided by the line height. For the default
  height \<open>600\<close>, \<open>V\<close> is \<open>30\<close>. On the window constructed with the defaults and given \<open>27\<close>
  more records, whose buffer holds \<open>31\<close>, the loop starts at the second record and breaks
  after \<open>29\<close> records: the newest record is not drawn, against the docstring of \<open>render\<close>
  (always show most recent logs).
\<close>

theorem render_drops_newest:
  "LogWindow_init ''System Logs'' (1000, 600) 100 True ''12:00:00'' ''12:00:00'' ''12:00:00'' ''12:00:00''
     = Inr (default_window, WindowCreated)
   \<and> snd (window_size busy_window) div line_height = 30
   \<and> length (log_lines busy_window) = 31
   \<and> last (log_lines busy_window) = (''12:00:02'', ''control'', ''newest'')
   \<and> map snd (drawn_lines busy_window) = take 29 (drop 1 (log_lines busy_window))
   \<and> (''12:00:02'', ''control'', ''newest'') \<notin> set (map snd (drawn_lines busy_window))
   \<and> render busy_window True =
       Presented (Rectangle (0, 0) (1000, 600) (20, 20, 20)
                    # concat (map draw_line (drawn_lines busy_window)))"
proof -
  have i: "LogWindow_init ''System Logs'' (1000, 600) 100 True ''12:00:00'' ''12:00:00''
      ''12:00:00'' ''12:00:00'' = Inr (default_window, WindowCreated)"
    by (simp add: LogWindow_init_def add_log_def deque_append_def default_window_def)
  have sz: "window_size busy_window = (1000, 600)"
    by (simp add: busy_window_def add_logs_window_size default_window_def)
  then have v: "snd (window_size busy_window) div line_height = 30"
    by (simp add: line_height_def)
  have n: "length (log_lines busy_window) = 31"
    and l: "last (log_lines busy_window) = (''12:00:02'', ''control'', ''newest'')"
    by (simp_all add: busy_window_lines default_window_def)
  have "(''12:00:02'', ''control'', ''newest'') \<notin> set (take 29 (drop 1 (log_lines busy_window)))"
    by (simp add: busy_window_lines default_window_def)
  then have d: "(''12:00:02'', ''control'', ''newest'') \<notin> set (map snd (drawn_lines busy_window))"
    unfolding busy_window_drawn .
  have r: "render busy_window True =
       Presented (Rectangle (0, 0) (1000, 600) (20, 20, 20)
                    # concat (map draw_line (drawn_lines busy_window)))"
    by (simp add: render_def sz)
  from i v n l busy_window_drawn d r show ?thesis by (intro conjI)
qed

section \<open>Properties of the logging manager\<close>

text \<open>The default initialization in a fresh module, evaluated.\<close>

lemma boot_init:
  "LoggingManager_init all_ok ''logs'' INFO True True 10 5 fresh_world = (Inr boot_manager, boot_world)"
  by code_simp



subsection \<open>The key of the rate limiter\<close>

lemma digit_char_code: "d < 10 \<Longrightarrow> of_char (digit_char d) = 48 + d"
  by (simp add: digit_char_def)

lemma digit_char_inj: "a < 10 \<Longrightarrow> b < 10 \<Longrightarrow> digit_char a = digit_char b \<Longrightarrow> a = b"
proof -
  assume a: "a < 10" and b: "b < 10" and e: "digit_char a = digit_char b"
  from e have "(of_char (digit_char a) :: nat) = of_char (digit_char b)" by simp
  with a b show "a = b" by (simp add: digit_char_code)
qed

lemma digits_range: "c \<in> set (digits n) \<Longrightarrow> 48 \<le> (of_char c :: nat) \<and> (of_char c :: nat) \<le> 57"
proof (induction n rule: digits.induct)
  case (1 n)
  show ?case
  proof (cases "n < 10")
    case True
    with "1.prems" have "c = digit_char n" by (simp add: digits.simps [of n])
    with True show ?thesis by (simp add: digit_char_code)
  next
    case False
    with "1.prems" have "c \<in> set (digits (n div 10)) \<or> c = digit_char (n mod 10)"
      by (auto simp: digits.simps [of n])
    then show ?thesis
    proof
      assume "c \<in> set (digits (n div 10))"
      with False "1.IH" show ?thesis by simp
    next
      assume "c = digit_char (n mod 10)"
      then show ?thesis by (simp add: digit_char_code)
    qed
  qed
qed

lemma digits_not_Nil: "digits n \<noteq> []"
  by (subst digits.simps) simp

lemma digits_inj: "digits a = digits b \<Longrightarrow> a = b"
proof (induction a arbitrary: b rule: digits.induct)
  case (1 n)
  show ?case
  proof (cases "n < 10")
    case True
    show ?thesis
    proof (cases "b < 10")
      case b: True
      with True "1.prems" show ?thesis
        by (simp add: digits.simps [of n] digits.simps [of b] digit_char_inj)
    next
      case b: False
      with True "1.prems" digits_not_Nil [of "b div 10"] show ?thesis
        by (simp add: digits.simps [of n] digits.simps [of b])
    qed
  next
    case False
    show ?thesis
    proof (cases "b < 10")
      case b: True
      with False "1.prems" digits_not_Nil [of "n div 10"] show ?thesis
        by (simp add: digits.simps [of n] digits.simps [of b])
    next
      case b: False
      with False "1.prems" have e: "digits (n div 10) = digits (b div 10)"
        and d: "digit_char (n mod 10) = digit_char (b mod 10)"
        by (simp_all add: digits.simps [of n] digits.simps [of b])
      from "1.IH" [OF False e] have q: "n div 10 = b div 10" .
      from d have r: "n mod 10 = b mod 10" by (intro digit_char_inj) simp_all
      have "n = 10 * (n div 10) + n mod 10" by simp
      also have "\<dots> = 10 * (b div 10) + b mod 10" by (simp only: q r)
      also have "\<dots> = b" by simp
      finally show ?thesis .
    qed
  qed
qed

lemma str_int_range:
  "c \<in> set (str_int i) \<Longrightarrow> c = CHR ''-'' \<or> 48 \<le> (of_char c :: nat) \<and> (of_char c :: nat) \<le> 57"
  by (auto simp: str_int_def dest: digits_range split: if_splits)

lemma str_int_no_colon: "CHR '':'' \<notin> set (str_int i)"
  using str_int_range [of "CHR '':''" i] by auto

lemma str_int_inj: "str_int i = str_int j \<Longrightarrow> i = j"
proof -
  assume e: "str_int i = str_int j"
  have minus: "\<And>n. hd (digits n) \<noteq> CHR ''-''"
  proof
    fix n assume h: "hd (digits n) = CHR ''-''"
    have "hd (digits n) \<in> set (digits n)" using digits_not_Nil by simp
    from digits_range [OF this] h show False by simp
  qed
  show "i = j"
  proof (cases "i < 0")
    case i: True
    show ?thesis
    proof (cases "j < 0")
      case True
      with i e have "digits (nat (- i)) = digits (nat (- j))" by (simp add: str_int_def)
      then have "nat (- i) = nat (- j)" by (rule digits_inj)
      with i True show ?thesis by simp
    next
      case False
      with i e have "CHR ''-'' # digits (nat (- i)) = digits (nat j)" by (simp add: str_int_def)
      then have "hd (digits (nat j)) = CHR ''-''" by (metis list.sel(1))
      with minus show ?thesis by simp
    qed
  next
    case i: False
    show ?thesis
    proof (cases "j < 0")
      case True
      with i e have "digits (nat i) = CHR ''-'' # digits (nat (- j))" by (simp add: str_int_def)
      then have "hd (digits (nat i)) = CHR ''-''" by simp
      with minus show ?thesis by simp
    next
      case False
      with i e have "digits (nat i) = digits (nat j)" by (simp add: str_int_def)
      then have "nat i = nat j" by (rule digits_inj)
      with i False show ?thesis by simp
    qed
  qed
qed

lemma split_at_last_sep:
  "x \<notin> set s \<Longrightarrow> x \<notin> set t \<Longrightarrow> a @ x # s = b @ x # t \<Longrightarrow> a = b \<and> s = t"
  by (auto simp: append_eq_append_conv2 append_eq_Cons_conv Cons_eq_append_conv)

text \<open>The key of the rate limiter determines the logger and the level.\<close>

lemma rate_key_inj: "rate_key a i = rate_key b j \<longleftrightarrow> a = b \<and> i = j"
proof
  assume "rate_key a i = rate_key b j"
  then have "a @ CHR '':'' # str_int i = b @ CHR '':'' # str_int j"
    by (simp add: rate_key_def)
  from split_at_last_sep [OF str_int_no_colon str_int_no_colon this]
  show "a = b \<and> i = j" by (auto dest: str_int_inj)
qed simp

subsection \<open>Rate limiting\<close>

lemma rate_limited_log_zero_limit:
  "rate_limited_log m w logger lvl message 0 now =
     (if map_of (rate_limiters m) (rate_key logger lvl) = None
      then Inr (m\<lparr>rate_limiters := AList.update (rate_key logger lvl) now (rate_limiters m)\<rparr>,
                log_call logger lvl message w)
      else Inl ZeroDivisionError)"
  by (auto simp: rate_limited_log_def Let_def split: option.splits)



subsection \<open>Operations on loggers\<close>

lemma lookup_map_entry:
  "map_of (AList.map_entry k f xs) k' = (if k' = k then map_option f (map_of xs k) else map_of xs k')"
  by (simp add: map_of_map_entry split: option.splits)

lemma lookup_setLevel:
  "map_of (store (setLevel ref lvl w)) r =
     (if r = ref then map_option (\<lambda>l. l\<lparr>level := lvl\<rparr>) (map_of (store w) ref)
      else map_of (store w) r)"
  by (simp add: setLevel_def lookup_map_entry)

lemma lookup_set_propagate:
  "map_of (store (set_propagate ref b w)) r =
     (if r = ref then map_option (\<lambda>l. l\<lparr>propagate := b\<rparr>) (map_of (store w) ref)
      else map_of (store w) r)"
  by (simp add: set_propagate_def lookup_map_entry)

lemma lookup_addHandler:
  "map_of (store (addHandler ref h w)) r =
     (if r = ref then map_option (\<lambda>l. l\<lparr>handlers := handlers l @ [h]\<rparr>) (map_of (store w) ref)
      else map_of (store w) r)"
  by (simp add: addHandler_def lookup_map_entry)

lemma lookup_removeHandlers:
  "map_of (store (removeHandlers ref w)) r =
     (if r = ref then map_option (\<lambda>l. l\<lparr>handlers := []\<rparr>) (map_of (store w) ref)
      else map_of (store w) r)"
  by (simp add: removeHandlers_def lookup_map_entry)

lemma emitted_store_ops [simp]:
  "emitted (setLevel ref lvl w) = emitted w"
  "emitted (set_propagate ref b w) = emitted w"
  "emitted (addHandler ref h w) = emitted w"
  "emitted (removeHandlers ref w) = emitted w"
  "store (log_call ref lvl message w) = store w"
  by (simp_all add: setLevel_def set_propagate_def addHandler_def removeHandlers_def log_call_def)

lemma getLogger_ref: "fst (getLogger name w) = ref_of name"
  by (simp add: getLogger_def Let_def split: option.splits)

lemma getLogger_lookup:
  "map_of (store (snd (getLogger name w))) r =
     (if r = ref_of name then Some (logger_of w (ref_of name)) else map_of (store w) r)"
  by (simp add: getLogger_def logger_of_def Let_def update_conv' split: option.splits)

lemma getLogger_emitted [simp]: "emitted (snd (getLogger name w)) = emitted w"
  by (simp add: getLogger_def Let_def split: option.splits)

subsection \<open>set_level\<close>

lemma setLevel_refs_lookup:
  "map_of (store (foldl (\<lambda>w' ref. setLevel ref lvl w') w refs)) r =
     map_option (\<lambda>l. if r \<in> set refs then l\<lparr>level := lvl\<rparr> else l) (map_of (store w) r)"
proof (induction refs arbitrary: w)
  case Nil
  show ?case by (simp add: option.map_ident)
next
  case (Cons a refs)
  show ?case
    by (cases "map_of (store w) r") (auto simp: Cons.IH lookup_setLevel)
qed

lemma setLevel_refs_emitted:
  "emitted (foldl (\<lambda>w' ref. setLevel ref lvl w') w refs) = emitted w"
  by (induction refs arbitrary: w) simp_all

lemma setLevel_names_refs:
  "foldl (\<lambda>w' name. case f name of Some ref \<Rightarrow> setLevel ref lvl w' | None \<Rightarrow> w') w names
     = foldl (\<lambda>w' ref. setLevel ref lvl w') w (List.map_filter f names)"
  by (induction names arbitrary: w) (simp_all split: option.splits)

lemma set_map_filter: "set (List.map_filter f xs) = {y. \<exists>x\<in>set xs. f x = Some y}"
  by (induction xs) (auto simp: List.map_filter_simps split: option.splits)

lemma set_level_unknown:
  "set_level m w lvl (Some (filter (\<lambda>name. map_of (loggers m) name = None) names)) = w"
  by (induction names) (simp_all add: set_level_def)

text \<open>
  Claim C6. \<open>set_level\<close> with a list of names sets the level of exactly the loggers
  registered under a name of the list, and changes nothing else of any logger; it has no
  error to raise, and a list of names that are not registered leaves the world as it is.
  Without a list it sets the level of every registered logger.
\<close>

theorem set_level_exactly:
  "map_of (store (set_level m w lvl (Some names))) ref =
      map_option (\<lambda>l. if \<exists>name\<in>set names. map_of (loggers m) name = Some ref
                       then l\<lparr>level := lvl\<rparr> else l) (map_of (store w) ref)
   \<and> emitted (set_level m w lvl (Some names)) = emitted w
   \<and> set_level m w lvl (Some (filter (\<lambda>name. map_of (loggers m) name = None) names)) = w
   \<and> map_of (store (set_level m w lvl None)) ref =
      map_option (\<lambda>l. if ref \<in> snd ` set (loggers m) then l\<lparr>level := lvl\<rparr> else l)
        (map_of (store w) ref)
   \<and> emitted (set_level m w lvl None) = emitted w"
proof -
  have "map_of (store (set_level m w lvl (Some names))) ref =
      map_option (\<lambda>l. if \<exists>name\<in>set names. map_of (loggers m) name = Some ref
                       then l\<lparr>level := lvl\<rparr> else l) (map_of (store w) ref)"
    by (simp add: set_level_def setLevel_names_refs setLevel_refs_lookup set_map_filter)
  moreover have "emitted (set_level m w lvl (Some names)) = emitted w"
    by (simp add: set_level_def setLevel_names_refs setLevel_refs_emitted)
  moreover have "map_of (store (set_level m w lvl None)) ref =
      map_option (\<lambda>l. if ref \<in> snd ` set (loggers m) then l\<lparr>level := lvl\<rparr> else l)
        (map_of (store w) ref)"
    by (simp add: set_level_def setLevel_refs_lookup)
  moreover have "emitted (set_level m w lvl None) = emitted w"
    by (simp add: set_level_def setLevel_refs_emitted)
  ultimately show ?thesis using set_level_unknown [of m w lvl names] by simp
qed

theorem set_level_exactly_witness:
  "map_of (store (set_level boot_manager boot_world 40 (Some [''sync'', ''doesNotExist''])))
      ''sync'' = map_option (\<lambda>l. l\<lparr>level := 40\<rparr>) (map_of (store boot_world) ''sync'')
   \<and> map_of (store (set_level boot_manager boot_world 40 (Some [''sync'', ''doesNotExist''])))
      ''control'' = map_of (store boot_world) ''control''
   \<and> set_level boot_manager boot_world 40 (Some [''doesNotExist'']) = boot_world"
proof -
  have f: "filter (\<lambda>name. map_of (loggers boot_manager) name = None) [''doesNotExist'']
      = [''doesNotExist'']"
    by (simp add: boot_manager_def)
  from set_level_exactly [of boot_manager boot_world 40 "[''sync'', ''doesNotExist'']" "''sync''"]
  have a: "map_of (store (set_level boot_manager boot_world 40 (Some [''sync'', ''doesNotExist''])))
      ''sync'' = map_option (\<lambda>l. l\<lparr>level := 40\<rparr>) (map_of (store boot_world) ''sync'')"
    by (simp add: boot_manager_def)
  from set_level_exactly [of boot_manager boot_world 40 "[''sync'', ''doesNotExist'']" "''control''"]
  have b: "map_of (store (set_level boot_manager boot_world 40 (Some [''sync'', ''doesNotExist''])))
      ''control'' = map_of (store boot_world) ''control''"
    by (simp add: boot_manager_def option.map_ident)
  from set_level_exactly [of boot_manager boot_world 40 "[''doesNotExist'']" "''sync''"] f
  have c: "set_level boot_manager boot_world 40 (Some [''doesNotExist'']) = boot_world"
    by simp
  from a b c show ?thesis by simp
qed

subsection \<open>Toggling a special logger\<close>


lemma manager_inv_known:
  "manager_inv m w \<Longrightarrow> map_of (special_loggers m) category = None \<longleftrightarrow> category \<notin> set special_names"
  by (simp add: manager_inv_def map_of_eq_None_iff del: set_map) (metis set_map)





subsection \<open>The global initializer\<close>

text \<open>
  Claim C8. When the global manager is set, \<open>initialize_logging\<close> returns it and changes
  nothing, whatever its arguments. When it is not set and the construction succeeds, the
  call sets it to the manager constructed, and a second call, with any arguments, returns
  that same manager and changes nothing.
\<close>

theorem initialize_logging_once:
  "(\<forall>m. logging_manager p = Some m \<longrightarrow>
       initialize_logging env dir lvl console file p = (Inr m, p))
   \<and> (\<forall>m w'. logging_manager p = None
         \<and> LoggingManager_init env dir lvl console file 10 5 (pworld p) = (Inr m, w') \<longrightarrow>
       initialize_logging env dir lvl console file p
         = (Inr m, p\<lparr>logging_manager := Some m, pworld := w'\<rparr>)
       \<and> initialize_logging env' dir' lvl' console' file'
           (snd (initialize_logging env dir lvl console file p))
         = (Inr m, snd (initialize_logging env dir lvl console file p)))"
  by (auto simp: initialize_logging_def)

theorem initialize_logging_once_witness:
  "logging_manager \<lparr>logging_manager = None, pworld = fresh_world\<rparr> = None
   \<and> initialize_logging all_ok ''logs'' INFO True True \<lparr>logging_manager = None, pworld = fresh_world\<rparr>
       = (Inr boot_manager, \<lparr>logging_manager = Some boot_manager, pworld = boot_world\<rparr>)
   \<and> initialize_logging all_ok ''elsewhere'' DEBUG False False
         \<lparr>logging_manager = Some boot_manager, pworld = boot_world\<rparr>
       = (Inr boot_manager, \<lparr>logging_manager = Some boot_manager, pworld = boot_world\<rparr>)"
proof -
  let ?p = "\<lparr>logging_manager = None, pworld = fresh_world\<rparr>"
  let ?q = "\<lparr>logging_manager = Some boot_manager, pworld = boot_world\<rparr>"
  have n: "logging_manager ?p = None" by simp
  have i: "LoggingManager_init all_ok ''logs'' INFO True True 10 5 (pworld ?p)
      = (Inr boot_manager, boot_world)"
    using boot_init by simp
  have q: "?p\<lparr>logging_manager := Some boot_manager, pworld := boot_world\<rparr> = ?q" by simp
  from initialize_logging_once [of ?p all_ok "''logs''" INFO True True all_ok "''elsewhere''"
      DEBUG False False] n i
  have ab: "initialize_logging all_ok ''logs'' INFO True True ?p
       = (Inr boot_manager, ?p\<lparr>logging_manager := Some boot_manager, pworld := boot_world\<rparr>)
    \<and> initialize_logging all_ok ''elsewhere'' DEBUG False False
         (snd (initialize_logging all_ok ''logs'' INFO True True ?p))
       = (Inr boot_manager, snd (initialize_logging all_ok ''logs'' INFO True True ?p))"
    by blast
  then have a: "initialize_logging all_ok ''logs'' INFO True True ?p = (Inr boot_manager, ?q)"
    unfolding q by (rule conjunct1)
  from ab have "initialize_logging all_ok ''elsewhere'' DEBUG False False
         (snd (initialize_logging all_ok ''logs'' INFO True True ?p))
       = (Inr boot_manager, snd (initialize_logging all_ok ''logs'' INFO True True ?p))"
    by (rule conjunct2)
  then have b: "initialize_logging all_ok ''elsewhere'' DEBUG False False ?q = (Inr boot_manager, ?q)"
    unfolding a snd_conv .
  from n a b show ?thesis by (intro conjI)
qed

subsection \<open>Looking a logger up\<close>

lemma update_new: "map_of al k = None \<Longrightarrow> AList.update k v al = al @ [(k, v)]"
  by (induction al) (auto split: if_splits)

lemma special_names_simps [simp]:
  "''root'' \<notin> set special_names" "[] \<notin> set special_names" "distinct special_names"
  by (simp_all add: special_names_def)

lemma ref_of_special: "ref_of name \<in> set special_names \<longleftrightarrow> name \<in> set special_names"
  by (auto simp: ref_of_def)

lemma propagation_default_lookup:
  assumes "propagation_default w" and "map_of (store w) name = Some l"
  shows "name \<in> set special_names \<or> propagate l"
proof -
  from assms(2) have "(name, l) \<in> set (store w)" by (rule map_of_SomeD)
  then have "name \<in> set (map fst (store w))" by force
  with assms show ?thesis by (auto simp: propagation_default_def list_all_iff)
qed

lemma propagation_defaultI:
  assumes "\<And>name l. map_of (store w) name = Some l \<Longrightarrow> name \<in> set special_names \<or> propagate l"
  shows "propagation_default w"
  using assms by (auto simp: propagation_default_def list_all_iff split: option.splits)

lemma logger_of_propagate:
  assumes "propagation_default w" and "ref \<notin> set special_names"
  shows "propagate (logger_of w ref)"
proof (cases "map_of (store w) ref")
  case None
  then show ?thesis by (simp add: logger_of_def new_logger_def)
next
  case (Some l)
  from propagation_default_lookup [OF assms(1) Some] assms(2) have "propagate l" by simp
  with Some show ?thesis by (simp add: logger_of_def)
qed

lemma get_logger_registered:
  "map_of (loggers m) name = Some ref \<Longrightarrow> get_logger m w name = (ref, m, w)"
  by (simp add: get_logger_def)

lemma get_logger_unregistered:
  assumes "map_of (loggers m) name = None"
  shows "\<exists>w1. get_logger m w name
            = (ref_of name, m\<lparr>loggers := loggers m @ [(name, ref_of name)]\<rparr>, w1)
          \<and> emitted w1 = emitted w
          \<and> (\<forall>r. map_of (store w1) r =
                (if r = ref_of name
                 then Some (if map_of (special_loggers m) name \<noteq> None
                            then (logger_of w r)\<lparr>propagate := False\<rparr> else logger_of w r)
                 else map_of (store w) r))"
proof -
  obtain ref w0 where g: "getLogger name w = (ref, w0)" by (cases "getLogger name w")
  from g getLogger_ref [of name w] have ref: "ref = ref_of name" by simp
  from g getLogger_lookup [of name w] have w0: "\<And>r. map_of (store w0) r =
     (if r = ref_of name then Some (logger_of w (ref_of name)) else map_of (store w) r)" by simp
  from g getLogger_emitted [of name w] have e0: "emitted w0 = emitted w" by simp
  let ?w1 = "if map_of (special_loggers m) name \<noteq> None then set_propagate ref False w0 else w0"
  have "get_logger m w name
            = (ref_of name, m\<lparr>loggers := loggers m @ [(name, ref_of name)]\<rparr>, ?w1)"
    using assms g ref by (simp add: get_logger_def update_new)
  moreover have "emitted ?w1 = emitted w" using e0 by simp
  moreover have "\<forall>r. map_of (store ?w1) r =
                (if r = ref_of name
                 then Some (if map_of (special_loggers m) name \<noteq> None
                            then (logger_of w r)\<lparr>propagate := False\<rparr> else logger_of w r)
                 else map_of (store w) r)"
    using w0 ref by (simp add: lookup_set_propagate)
  ultimately show ?thesis by blast
qed




subsection \<open>Initialization\<close>

lemma logger_of_eq: "map_of (store w) r = map_of (store w') r \<Longrightarrow> logger_of w r = logger_of w' r"
  by (simp add: logger_of_def)

lemma logger_of_Some: "map_of (store w) r = Some l \<Longrightarrow> logger_of w r = l"
  by (simp add: logger_of_def)

lemma special_logger_after_cong:
  "map_of (store w) r = map_of (store w') r \<Longrightarrow> enable_file m = enable_file m'
     \<Longrightarrow> file_handler m = file_handler m'
     \<Longrightarrow> special_logger_after m w r = special_logger_after m' w' r"
  by (simp add: special_logger_after_def logger_of_def)

lemma special_loop_result:
  assumes "special_loop env cs m w = (Inr m', w')"
    and "distinct cs" and "[] \<notin> set cs"
    and "\<forall>c\<in>set cs. map_of (loggers m) c = None"
    and "\<forall>c\<in>set cs. map_of (special_loggers m) c \<noteq> None"
  shows "loggers m' = loggers m @ map (\<lambda>c. (c, c)) cs
       \<and> map fst (special_loggers m') = map fst (special_loggers m)
       \<and> (\<forall>k. map_of (special_loggers m') k =
               (if k \<in> set cs then Some (Some k) else map_of (special_loggers m) k))
       \<and> (\<forall>r. map_of (store w') r =
               (if r \<in> set cs then Some (special_logger_after m w r) else map_of (store w) r))
       \<and> emitted w' = emitted w
       \<and> rate_limiters m' = rate_limiters m
       \<and> (enable_file m \<longrightarrow> (\<forall>c\<in>set cs. open_ok env (os_path_join (log_dir m) (c @ ''.log''))))"
  using assms
proof (induction cs arbitrary: m w)
  case Nil
  then show ?case by simp
next
  case (Cons c cs)
  have new: "map_of (loggers m) c = None" using Cons.prems(4) by simp
  have key: "map_of (special_loggers m) c \<noteq> None" using Cons.prems(5) by simp
  have ne: "c \<noteq> []" using Cons.prems(3) by auto
  then have rc: "ref_of c = c" by (simp add: ref_of_def)
  let ?m1 = "m\<lparr>loggers := loggers m @ [(c, c)]\<rparr>"
  from get_logger_unregistered [OF new, of w] rc key obtain w1 where
    g: "get_logger m w c = (c, ?m1, w1)"
    and e1: "emitted w1 = emitted w"
    and s1: "\<And>r. map_of (store w1) r =
                (if r = c then Some ((logger_of w c)\<lparr>propagate := False\<rparr>) else map_of (store w) r)"
    by auto
  let ?m2 = "?m1\<lparr>special_loggers := AList.update c (Some c) (special_loggers ?m1)\<rparr>"
  let ?w2 = "if enable_file m then addHandler c (file_handler ?m1 (c @ ''.log'')) w1 else w1"
  have ok: "enable_file m \<longrightarrow> open_ok env (os_path_join (log_dir m) (c @ ''.log''))"
    using Cons.prems(1) g by (auto split: if_splits)
  have rec: "special_loop env cs ?m2 ?w2 = (Inr m', w')"
    using Cons.prems(1) g ok by (auto split: if_splits)
  have fh: "file_handler ?m2 = file_handler m" "file_handler ?m1 = file_handler m"
    by (simp_all add: file_handler_def fun_eq_iff)
  have s2: "\<And>r. map_of (store ?w2) r =
        (if r = c then Some (special_logger_after m w c) else map_of (store w) r)"
    by (simp add: lookup_addHandler s1 special_logger_after_def fh)
  have p4: "\<forall>k\<in>set cs. map_of (loggers ?m2) k = None"
    using Cons.prems(2,4) by (auto simp: map_add_def)
  have p5: "\<forall>k\<in>set cs. map_of (special_loggers ?m2) k \<noteq> None"
    using Cons.prems(5) by (simp add: update_conv')
  from Cons.prems(2,3) have d: "distinct cs" "[] \<notin> set cs" "c \<notin> set cs" by auto
  note IH = Cons.IH [OF rec d(1,2) p4 p5]
  have keys: "map fst (special_loggers ?m2) = map fst (special_loggers m)"
    using key by (auto simp: update_keys map_of_eq_None_iff)
  have after: "\<And>r. r \<in> set cs \<Longrightarrow> special_logger_after ?m2 ?w2 r = special_logger_after m w r"
  proof -
    fix r assume "r \<in> set cs"
    with d(3) have "r \<noteq> c" by auto
    then have "map_of (store ?w2) r = map_of (store w) r" by (simp only: s2 if_False)
    then show "special_logger_after ?m2 ?w2 r = special_logger_after m w r"
      by (intro special_logger_after_cong) (simp_all add: file_handler_def fun_eq_iff)
  qed
  have "loggers m' = loggers m @ map (\<lambda>c. (c, c)) (c # cs)"
    using IH by simp
  moreover have "map fst (special_loggers m') = map fst (special_loggers m)"
    using IH keys by simp
  moreover have "\<forall>k. map_of (special_loggers m') k =
               (if k \<in> set (c # cs) then Some (Some k) else map_of (special_loggers m) k)"
    using IH by (simp add: update_conv')
  moreover have "\<forall>r. map_of (store w') r =
               (if r \<in> set (c # cs) then Some (special_logger_after m w r) else map_of (store w) r)"
  proof
    fix r
    from IH have "map_of (store w') r =
        (if r \<in> set cs then Some (special_logger_after ?m2 ?w2 r) else map_of (store ?w2) r)"
      by blast
    then show "map_of (store w') r =
               (if r \<in> set (c # cs) then Some (special_logger_after m w r) else map_of (store w) r)"
      using after [of r] d(3) s2 [of r] by (cases "r \<in> set cs") auto
  qed
  moreover have "emitted w' = emitted w" using IH e1 by simp
  moreover have "rate_limiters m' = rate_limiters m" using IH by simp
  moreover have "enable_file m \<longrightarrow>
      (\<forall>k\<in>set (c # cs). open_ok env (os_path_join (log_dir m) (k @ ''.log'')))"
    using IH ok by simp
  ultimately show ?case by blast
qed

lemma configure_root_logger_result:
  assumes "configure_root_logger env m w = (Inr m1, w1)"
  shows "m1 = m\<lparr>loggers := AList.update ''root'' ''root'' (loggers m)\<rparr>
       \<and> emitted w1 = emitted w
       \<and> (\<forall>r. map_of (store w1) r =
             (if r = ''root''
              then Some ((logger_of w ''root'')
                     \<lparr>level := default_level m,
                      handlers := (if enable_console m then [StreamHandler standard_format] else [])
                        @ (if enable_file m then [file_handler m ''main.log''] else [])\<rparr>)
              else map_of (store w) r))
       \<and> (enable_file m \<longrightarrow> open_ok env (os_path_join (log_dir m) ''main.log''))"
proof -
  obtain ref w0 where g: "getLogger [] w = (ref, w0)" by (cases "getLogger [] w")
  from g getLogger_ref [of "[]" w] have ref: "ref = ''root''" by (simp add: ref_of_def)
  from g getLogger_lookup [of "[]" w] have w0: "\<And>r. map_of (store w0) r =
     (if r = ''root'' then Some (logger_of w ''root'') else map_of (store w) r)"
    by (simp add: ref_of_def)
  from g getLogger_emitted [of "[]" w] have e0: "emitted w0 = emitted w" by simp
  from assms show ?thesis
    unfolding configure_root_logger_def g ref
    by (auto simp: Let_def lookup_addHandler lookup_setLevel lookup_removeHandlers w0 e0
             split: if_splits)
qed

lemma LoggingManager_init_result:
  assumes "LoggingManager_init env dir lvl console file size_mb backups w = (Inr m, w')"
  shows "loggers m = (''root'', ''root'') # map (\<lambda>c. (c, c)) special_names
       \<and> map fst (special_loggers m) = special_names
       \<and> (\<forall>c\<in>set special_names. map_of (special_loggers m) c = Some (Some c))
       \<and> (\<forall>r. map_of (store w') r =
             (if r \<in> set special_names
              then Some ((logger_of w r)
                     \<lparr>propagate := False,
                      handlers := handlers (logger_of w r)
                        @ (if file
                           then [RotatingFileHandler (os_path_join dir (r @ ''.log''))
                                   (size_mb * 1024 * 1024) backups detailed_format]
                           else [])\<rparr>)
              else if r = ''root''
              then Some ((logger_of w ''root'')
                     \<lparr>level := lvl,
                      handlers := (if console then [StreamHandler standard_format] else [])
                        @ (if file
                           then [RotatingFileHandler (os_path_join dir ''main.log'')
                                   (size_mb * 1024 * 1024) backups detailed_format]
                           else [])\<rparr>)
              else map_of (store w) r))
       \<and> emitted w' = emitted w
       \<and> rate_limiters m = []"
proof -
  let ?m0 = "\<lparr>log_dir = dir, default_level = lvl, enable_console = console,
                  enable_file = file, max_file_size_mb = size_mb, backup_count = backups,
                  loggers = [],
                  special_loggers = [(''diagnostic'', None), (''sensor'', None), (''sync'', None),
                                     (''control'', None), (''performance'', None)],
                  rate_limiters = []\<rparr>"
  from assms obtain m1 w1 where
    c: "configure_root_logger env ?m0 w = (Inr m1, w1)"
    and i: "initialize_special_loggers env m1 w1 = (Inr m, w')"
    by (auto simp: LoggingManager_init_def Let_def split: if_splits prod.splits sum.splits)
  from configure_root_logger_result [OF c] have
    m1: "m1 = ?m0\<lparr>loggers := [(''root'', ''root'')]\<rparr>"
    and e1: "emitted w1 = emitted w"
    and s1: "\<And>r. map_of (store w1) r =
             (if r = ''root''
              then Some ((logger_of w ''root'')
                     \<lparr>level := lvl,
                      handlers := (if console then [StreamHandler standard_format] else [])
                        @ (if file then [file_handler ?m0 ''main.log''] else [])\<rparr>)
              else map_of (store w) r)"
    by simp_all
  have keys: "map fst (special_loggers m1) = special_names"
    by (simp add: m1 special_names_def)
  from i have loop: "special_loop env special_names m1 w1 = (Inr m, w')"
    by (simp add: initialize_special_loggers_def keys)
  have p4: "\<forall>c\<in>set special_names. map_of (loggers m1) c = None"
    by (simp add: m1 special_names_def)
  have p5: "\<forall>c\<in>set special_names. map_of (special_loggers m1) c \<noteq> None"
    by (simp add: m1 special_names_def)
  note r = special_loop_result [OF loop special_names_simps(3) special_names_simps(2) p4 p5]
  have "loggers m = (''root'', ''root'') # map (\<lambda>c. (c, c)) special_names"
    using r by (simp add: m1)
  moreover have "map fst (special_loggers m) = special_names"
    using r keys by simp
  moreover have "\<forall>c\<in>set special_names. map_of (special_loggers m) c = Some (Some c)"
    using r by simp
  moreover have "\<forall>r. map_of (store w') r =
             (if r \<in> set special_names
              then Some ((logger_of w r)
                     \<lparr>propagate := False,
                      handlers := handlers (logger_of w r)
                        @ (if file
                           then [RotatingFileHandler (os_path_join dir (r @ ''.log''))
                                   (size_mb * 1024 * 1024) backups detailed_format]
                           else [])\<rparr>)
              else if r = ''root''
              then Some ((logger_of w ''root'')
                     \<lparr>level := lvl,
                      handlers := (if console then [StreamHandler standard_format] else [])
                        @ (if file
                           then [RotatingFileHandler (os_path_join dir ''main.log'')
                                   (size_mb * 1024 * 1024) backups detailed_format]
                           else [])\<rparr>)
              else map_of (store w) r)"
  proof
    fix x
    show "map_of (store w') x =
             (if x \<in> set special_names
              then Some ((logger_of w x)
                     \<lparr>propagate := False,
                      handlers := handlers (logger_of w x)
                        @ (if file
                           then [RotatingFileHandler (os_path_join dir (x @ ''.log''))
                                   (size_mb * 1024 * 1024) backups detailed_format]
                           else [])\<rparr>)
              else if x = ''root''
              then Some ((logger_of w ''root'')
                     \<lparr>level := lvl,
                      handlers := (if console then [StreamHandler standard_format] else [])
                        @ (if file
                           then [RotatingFileHandler (os_path_join dir ''main.log'')
                                   (size_mb * 1024 * 1024) backups detailed_format]
                           else [])\<rparr>)
              else map_of (store w) x)"
    proof (cases "x \<in> set special_names")
      case True
      then have "x \<noteq> ''root''" by auto
      then have "logger_of w1 x = logger_of w x" by (intro logger_of_eq) (simp add: s1)
      moreover from r True have "map_of (store w') x = Some (special_logger_after m1 w1 x)"
        by simp
      ultimately show ?thesis using True
        by (simp add: special_logger_after_def file_handler_def m1)
    next
      case False
      with r have "map_of (store w') x = map_of (store w1) x" by simp
      with False show ?thesis by (simp add: s1 file_handler_def)
    qed
  qed
  moreover have "emitted w' = emitted w" using r e1 by simp
  moreover have "rate_limiters m = []" using r by (simp add: m1)
  ultimately show ?thesis by blast
qed

text \<open>
  Claim C7. When \<open>LoggingManager.__init__\<close> returns, the loggers registered are the root
  logger and the five special ones, in this order; each of the five is set in
  \<open>special_loggers\<close>, has its propagation flag false and, when files are enabled, has as
  its last handler a rotating file handler on \<open>category.log\<close> in the log directory, with
  the configured size in bytes and backup count.
\<close>

theorem init_special_loggers:
  assumes "LoggingManager_init env dir lvl console file size_mb backups w = (Inr m, w')"
  shows "loggers m = (''root'', ''root'') # map (\<lambda>c. (c, c)) special_names
       \<and> map fst (special_loggers m) = special_names
       \<and> (\<forall>c\<in>set special_names.
            map_of (special_loggers m) c = Some (Some c)
          \<and> map_of (store w') c =
              Some ((logger_of w c)
                \<lparr>propagate := False,
                 handlers := handlers (logger_of w c)
                   @ (if file
                      then [RotatingFileHandler (os_path_join dir (c @ ''.log''))
                              (size_mb * 1024 * 1024) backups detailed_format]
                      else [])\<rparr>))"
  using LoggingManager_init_result [OF assms] by simp

theorem init_special_loggers_witness:
  "LoggingManager_init all_ok ''logs'' INFO True True 10 5 fresh_world = (Inr boot_manager, boot_world)
   \<and> loggers boot_manager = (''root'', ''root'') # map (\<lambda>c. (c, c)) special_names
   \<and> map fst (special_loggers boot_manager) = special_names
   \<and> map_of (special_loggers boot_manager) ''sensor'' = Some (Some ''sensor'')
   \<and> map_of (store boot_world) ''sensor'' =
       Some \<lparr>level = 0, propagate = False,
             handlers = [RotatingFileHandler ''logs/sensor.log'' 10485760 5 detailed_format]\<rparr>"
proof -
  have s: "''sensor'' \<in> set special_names" by (simp add: special_names_def)
  from init_special_loggers [OF boot_init] s
  show ?thesis using boot_init
    by (simp add: logger_of_def fresh_world_def new_logger_def NOTSET_def os_path_join_def)
qed

subsection \<open>The invariants hold in every state the manager reaches\<close>

lemma manager_inv_iff:
  "manager_inv m w \<longleftrightarrow>
     map fst (special_loggers m) = special_names
   \<and> distinct (map fst (loggers m))
   \<and> map_of (loggers m) ''root'' = Some ''root''
   \<and> (\<forall>name ref. (name, ref) \<in> set (loggers m) \<longrightarrow> map_of (store w) ref \<noteq> None)
   \<and> (\<forall>category ref. (category, Some ref) \<in> set (special_loggers m)
         \<longrightarrow> map_of (loggers m) category = Some ref)"
  unfolding manager_inv_def list_all_iff
  by (intro arg_cong2 [where f = "(\<and>)"] refl) (auto split: option.splits)

lemma manager_inv_world:
  assumes "manager_inv m w"
    and "\<And>r. map_of (store w) r \<noteq> None \<Longrightarrow> map_of (store w') r \<noteq> None"
  shows "manager_inv m w'"
  using assms unfolding manager_inv_iff by blast

lemma manager_inv_rate_limiters:
  "manager_inv (m\<lparr>rate_limiters := x\<rparr>) w = manager_inv m w"
  by (simp add: manager_inv_iff)

lemma manager_inv_set_level:
  "manager_inv m w \<Longrightarrow> manager_inv m (set_level m w lvl names)"
proof (rule manager_inv_world)
  fix r assume "map_of (store w) r \<noteq> None"
  then show "map_of (store (set_level m w lvl names)) r \<noteq> None"
    by (cases names) (auto simp: set_level_def setLevel_names_refs setLevel_refs_lookup)
qed

lemma propagation_default_set_level:
  assumes "propagation_default w"
  shows "propagation_default (set_level m w lvl names)"
proof (rule propagation_defaultI)
  fix name l assume "map_of (store (set_level m w lvl names)) name = Some l"
  then obtain l0 where "map_of (store w) name = Some l0" and "propagate l = propagate l0"
    by (cases names) (auto simp: set_level_def setLevel_names_refs setLevel_refs_lookup
        split: if_splits)
  with propagation_default_lookup [OF assms] show "name \<in> set special_names \<or> propagate l"
    by auto
qed

lemma manager_inv_toggle:
  "manager_inv m w \<Longrightarrow> manager_inv m (snd (toggle_special_logger m w category enable))"
proof (rule manager_inv_world)
  fix r assume "map_of (store w) r \<noteq> None"
  then show "map_of (store (snd (toggle_special_logger m w category enable))) r \<noteq> None"
    by (auto simp: toggle_special_logger_def Let_def lookup_setLevel split: option.splits)
qed

lemma propagation_default_toggle:
  assumes "propagation_default w"
  shows "propagation_default (snd (toggle_special_logger m w category enable))"
proof (rule propagation_defaultI)
  fix name l
  assume "map_of (store (snd (toggle_special_logger m w category enable))) name = Some l"
  then obtain l0 where "map_of (store w) name = Some l0" and "propagate l = propagate l0"
    by (auto simp: toggle_special_logger_def Let_def lookup_setLevel
        split: option.splits if_splits)
  with propagation_default_lookup [OF assms] show "name \<in> set special_names \<or> propagate l"
    by auto
qed

lemma invariants_rate_limited_log:
  assumes "rate_limited_log m w logger lvl message limit_per_second now = Inr (m', w')"
  shows "manager_inv m' w' = manager_inv m w \<and> propagation_default w' = propagation_default w"
  using assms
  by (auto simp: rate_limited_log_def Let_def manager_inv_iff propagation_default_def log_call_def
      split: option.splits if_splits)

lemma manager_inv_get_logger:
  assumes "manager_inv m w" and "get_logger m w name = (ref, m', w')"
  shows "manager_inv m' w'"
proof (cases "map_of (loggers m) name")
  case (Some r)
  with assms show ?thesis by (simp add: get_logger_registered)
next
  case None
  from get_logger_unregistered [OF None, of w] assms(2) have
    m': "m' = m\<lparr>loggers := loggers m @ [(name, ref_of name)]\<rparr>"
    and s: "\<And>r. map_of (store w') r =
                (if r = ref_of name
                 then Some (if map_of (special_loggers m) name \<noteq> None
                            then (logger_of w r)\<lparr>propagate := False\<rparr> else logger_of w r)
                 else map_of (store w) r)"
    by auto
  have live: "\<And>r. map_of (store w) r \<noteq> None \<Longrightarrow> map_of (store w') r \<noteq> None"
    by (simp add: s)
  from manager_inv_world [OF assms(1) live] have i: "manager_inv m w'" .
  from None have fresh: "name \<notin> fst ` set (loggers m)" by (simp add: map_of_eq_None_iff)
  have keep: "\<And>k v. map_of (loggers m) k = Some v \<Longrightarrow> map_of (loggers m') k = Some v"
    by (simp add: m' map_add_def)
  have "distinct (map fst (loggers m'))"
    using i fresh by (simp add: m' manager_inv_iff)
  moreover have "map_of (loggers m') ''root'' = Some ''root''"
    using i by (intro keep) (simp add: manager_inv_iff)
  moreover have "\<forall>k r. (k, r) \<in> set (loggers m') \<longrightarrow> map_of (store w') r \<noteq> None"
    using i by (auto simp: m' manager_inv_iff s)
  moreover have "\<forall>category r. (category, Some r) \<in> set (special_loggers m')
         \<longrightarrow> map_of (loggers m') category = Some r"
    using i keep by (simp add: m' manager_inv_iff)
  moreover have "map fst (special_loggers m') = special_names"
    using i by (simp add: m' manager_inv_iff)
  ultimately show ?thesis unfolding manager_inv_iff [of m' w'] by blast
qed

lemma propagation_default_get_logger:
  assumes "manager_inv m w" and "propagation_default w"
    and "get_logger m w name = (ref, m', w')"
  shows "propagation_default w'"
proof (cases "map_of (loggers m) name")
  case (Some r)
  with assms show ?thesis by (simp add: get_logger_registered)
next
  case None
  from get_logger_unregistered [OF None, of w] assms(3) have
    s: "\<And>r. map_of (store w') r =
                (if r = ref_of name
                 then Some (if map_of (special_loggers m) name \<noteq> None
                            then (logger_of w r)\<lparr>propagate := False\<rparr> else logger_of w r)
                 else map_of (store w) r)"
    by auto
  show ?thesis
  proof (rule propagation_defaultI)
    fix r l assume l: "map_of (store w') r = Some l"
    show "r \<in> set special_names \<or> propagate l"
    proof (cases "r = ref_of name")
      case False
      with l s have "map_of (store w) r = Some l" by simp
      from propagation_default_lookup [OF assms(2) this] show ?thesis .
    next
      case True
      show ?thesis
      proof (cases "name \<in> set special_names")
        case sp: True
        with True show ?thesis by (simp add: ref_of_special)
      next
        case sp: False
        then have "ref_of name \<notin> set special_names" by (simp add: ref_of_special)
        from logger_of_propagate [OF assms(2) this] l s True sp
        show ?thesis using manager_inv_known [OF assms(1), of name] by simp
      qed
    qed
  qed
qed

lemma map_of_diagonal: "map_of (map (\<lambda>c. (c, c)) xs) k = (if k \<in> set xs then Some k else None)"
  by (induction xs) auto

lemma manager_inv_init:
  assumes "LoggingManager_init env dir lvl console file size_mb backups w = (Inr m, w')"
  shows "manager_inv m w'"
proof -
  note r = LoggingManager_init_result [OF assms]
  have lg: "\<And>k. map_of (loggers m) k =
      (if k = ''root'' then Some ''root'' else if k \<in> set special_names then Some k else None)"
    using r by (simp add: map_of_diagonal)
  have "distinct (map fst (loggers m))"
    using r by (simp add: comp_def)
  moreover have "map_of (loggers m) ''root'' = Some ''root''" by (simp add: lg)
  moreover have "\<forall>k x. (k, x) \<in> set (loggers m) \<longrightarrow> map_of (store w') x \<noteq> None"
    using r by auto
  moreover have "\<forall>category x. (category, Some x) \<in> set (special_loggers m)
         \<longrightarrow> map_of (loggers m) category = Some x"
  proof (intro allI impI)
    fix category x assume e: "(category, Some x) \<in> set (special_loggers m)"
    then have "category \<in> fst ` set (special_loggers m)" by force
    with r have c: "category \<in> set special_names" by (metis set_map)
    have "distinct (map fst (special_loggers m))" using r by simp
    with e have "map_of (special_loggers m) category = Some (Some x)" by simp
    with r c have "x = category" by simp
    with c show "map_of (loggers m) category = Some x" by (auto simp: lg)
  qed
  ultimately show ?thesis using r unfolding manager_inv_iff [of m w'] by blast
qed

lemma propagation_default_init:
  assumes "propagation_default w"
    and "LoggingManager_init env dir lvl console file size_mb backups w = (Inr m, w')"
  shows "propagation_default w'"
proof (rule propagation_defaultI)
  note r = LoggingManager_init_result [OF assms(2)]
  fix name l assume l: "map_of (store w') name = Some l"
  show "name \<in> set special_names \<or> propagate l"
  proof (cases "name \<in> set special_names")
    case True
    then show ?thesis by simp
  next
    case False
    have "propagate l"
    proof (cases "name = ''root''")
      case True
      with False r l have "propagate l = propagate (logger_of w ''root'')" by auto
      with logger_of_propagate [OF assms(1), of "''root''"] show ?thesis by simp
    next
      case nr: False
      with False r l have "map_of (store w) name = Some l" by simp
      from propagation_default_lookup [OF assms(1) this] False show ?thesis by simp
    qed
    then show ?thesis by simp
  qed
qed

lemma get_logger_fields:
  "get_logger m w name = (ref, m', w') \<Longrightarrow> m' = m\<lparr>loggers := loggers m'\<rparr>"
  by (auto simp: get_logger_def split: option.splits prod.splits)

lemma special_loop_succeeds:
  assumes "enable_file m \<Longrightarrow> \<forall>c\<in>set cs. open_ok env (os_path_join (log_dir m) (c @ ''.log''))"
  shows "\<exists>m' w'. special_loop env cs m w = (Inr m', w')"
  using assms
proof (induction cs arbitrary: m w)
  case Nil
  show ?case by simp
next
  case (Cons c cs)
  obtain ref m1 w1 where g: "get_logger m w c = (ref, m1, w1)" by (cases "get_logger m w c")
  from get_logger_fields [OF g] have f: "enable_file m1 = enable_file m" "log_dir m1 = log_dir m"
    by (metis LoggingManager.select_convs LoggingManager.surjective LoggingManager.update_convs)+
  let ?m2 = "m1\<lparr>special_loggers := AList.update c (Some ref) (special_loggers m1)\<rparr>"
  have p: "\<And>w2. \<exists>m' w'. special_loop env cs ?m2 w2 = (Inr m', w')"
    using Cons.prems f by (intro Cons.IH) simp
  show ?case
    using g f Cons.prems p by (cases "enable_file m") simp_all
qed

text \<open>
  The constructor returns when the directory can be made and, if files are enabled, the
  six log files can be opened; it raises \<open>OSError\<close> when the directory cannot be made.
\<close>

lemma LoggingManager_init_succeeds:
  assumes "makedirs_ok env dir"
    and "file \<Longrightarrow> open_ok env (os_path_join dir ''main.log'')"
    and "file \<Longrightarrow> \<forall>c\<in>set special_names. open_ok env (os_path_join dir (c @ ''.log''))"
  shows "\<exists>m w'. LoggingManager_init env dir lvl console file size_mb backups w = (Inr m, w')"
proof -
  let ?m0 = "\<lparr>log_dir = dir, default_level = lvl, enable_console = console,
                  enable_file = file, max_file_size_mb = size_mb, backup_count = backups,
                  loggers = [],
                  special_loggers = [(''diagnostic'', None), (''sensor'', None), (''sync'', None),
                                     (''control'', None), (''performance'', None)],
                  rate_limiters = []\<rparr>"
  obtain ref w0 where g: "getLogger [] w = (ref, w0)" by (cases "getLogger [] w")
  from assms(2) obtain m1 w1 where c: "configure_root_logger env ?m0 w = (Inr m1, w1)"
    and m1: "m1 = ?m0\<lparr>loggers := AList.update ''root'' ref []\<rparr>"
    by (cases "file") (simp_all add: configure_root_logger_def g Let_def)
  have "\<exists>m w'. special_loop env special_names m1 w1 = (Inr m, w')"
    using assms(3) by (intro special_loop_succeeds) (simp add: m1)
  moreover have "map fst (special_loggers m1) = special_names"
    by (simp add: m1 special_names_def)
  ultimately show ?thesis
    using assms(1) c by (simp add: LoggingManager_init_def initialize_special_loggers_def)
qed

lemma LoggingManager_init_no_directory:
  "\<not> makedirs_ok env dir \<Longrightarrow>
     LoggingManager_init env dir lvl console file size_mb backups w = (Inl OSError, w)"
  by (simp add: LoggingManager_init_def)

lemma invariants_apply_manager_op:
  assumes "manager_inv m w" and "propagation_default w"
    and "apply_manager_op (m, w) operation = (m', w')"
  shows "manager_inv m' w' \<and> propagation_default w'"
proof (cases operation)
  case (GetLogger name)
  obtain ref m1 w1 where g: "get_logger m w name = (ref, m1, w1)"
    by (cases "get_logger m w name")
  with assms(3) GetLogger have "m' = m1" "w' = w1" by auto
  with manager_inv_get_logger [OF assms(1) g] propagation_default_get_logger [OF assms(1,2) g]
  show ?thesis by simp
next
  case (SetLevel lvl names)
  with assms(3) have "m' = m" "w' = set_level m w lvl names" by auto
  with manager_inv_set_level [OF assms(1)] propagation_default_set_level [OF assms(2)]
  show ?thesis by simp
next
  case (Toggle category enable)
  with assms(3) have "m' = m" "w' = snd (toggle_special_logger m w category enable)" by auto
  with manager_inv_toggle [OF assms(1)] propagation_default_toggle [OF assms(2)]
  show ?thesis by simp
next
  case (RateLimitedLog logger lvl message limit_per_second current_time)
  show ?thesis
  proof (cases "rate_limited_log m w logger lvl message limit_per_second current_time")
    case (Inl e)
    with assms RateLimitedLog show ?thesis by simp
  next
    case (Inr s)
    with assms(3) RateLimitedLog have
      "rate_limited_log m w logger lvl message limit_per_second current_time = Inr (m', w')"
      by simp
    from invariants_rate_limited_log [OF this] assms(1,2) show ?thesis by simp
  qed
qed

text \<open>
  Every state that a run of calls reaches from a constructed manager satisfies both
  invariants, when the module had its propagation flags at their defaults before.
\<close>

lemma invariants_run_manager:
  assumes "manager_inv m w" and "propagation_default w"
    and "run_manager (m, w) ops = (m', w')"
  shows "manager_inv m' w' \<and> propagation_default w'"
  using assms unfolding run_manager_def
proof (induction ops arbitrary: m w)
  case Nil
  then show ?case by simp
next
  case (Cons a ops)
  obtain m1 w1 where s: "apply_manager_op (m, w) a = (m1, w1)"
    by (cases "apply_manager_op (m, w) a")
  from invariants_apply_manager_op [OF Cons.prems(1,2) s]
  have "manager_inv m1 w1" and "propagation_default w1" by simp_all
  moreover from Cons.prems(3) s have "foldl apply_manager_op (m1, w1) ops = (m', w')" by simp
  ultimately show ?case by (rule Cons.IH)
qed

end
